theory Spec2Isabelle
  imports Main "HOL-Library.Sublist"
begin

section \<open>Python string operations used by the report script\<close>

text \<open>
  The script \<^verbatim>\<open>utils/process_circleci_workflow_test_reports.py\<close> works on Python
  \<^verbatim>\<open>str\<close> values. A \<^typ>\<open>string\<close> stands for a \<^verbatim>\<open>str\<close> whose code points are all
  below 256; a \<^typ>\<open>char\<close> is one code point. The character classes below are the ones
  Python uses on that range.
\<close>

definition isspace :: "char \<Rightarrow> bool" where
  \<comment> \<open>\<^verbatim>\<open>str.isspace\<close>: the characters removed by \<^verbatim>\<open>strip()\<close> and separating \<^verbatim>\<open>split()\<close>.\<close>
  "isspace c = ((of_char c :: nat) \<in> set [9, 10, 11, 12, 13, 28, 29, 30, 31, 32, 133, 160])"

definition is_linebreak :: "char \<Rightarrow> bool" where
  \<comment> \<open>the line boundaries of \<^verbatim>\<open>str.splitlines\<close>.\<close>
  "is_linebreak c = ((of_char c :: nat) \<in> set [10, 11, 12, 13, 28, 29, 30, 133])"

definition isdigit :: "char \<Rightarrow> bool" where
  \<comment> \<open>the regular expression class \<^verbatim>\<open>\d\<close>.\<close>
  "isdigit c = (48 \<le> (of_char c :: nat) \<and> (of_char c :: nat) \<le> 57)"

definition lower_char :: "char \<Rightarrow> char" where
  "lower_char c =
     (let n = (of_char c :: nat)
      in if (65 \<le> n \<and> n \<le> 90) \<or> (192 \<le> n \<and> n \<le> 222 \<and> n \<noteq> 215)
         then char_of (n + 32) else c)"

definition lower :: "string \<Rightarrow> string" where
  "lower s = map lower_char s"

definition startswith :: "string \<Rightarrow> string \<Rightarrow> bool" where
  "startswith s p = prefix p s"

fun contains :: "string \<Rightarrow> string \<Rightarrow> bool" where
  \<comment> \<open>\<^verbatim>\<open>sub in s\<close>\<close>
  "contains [] sub = (sub = [])"
| "contains (c # cs) sub = (prefix sub (c # cs) \<or> contains cs sub)"

definition strip :: "string \<Rightarrow> string" where
  "strip s = rev (dropWhile isspace (rev (dropWhile isspace s)))"

fun split_ws_from :: "string \<Rightarrow> string \<Rightarrow> string list" where
  \<comment> \<open>\<^verbatim>\<open>str.split()\<close> without a separator; the first argument is the word being read,
      reversed.\<close>
  "split_ws_from cur [] = (if cur = [] then [] else [rev cur])"
| "split_ws_from cur (c # cs) =
     (if isspace c
      then (if cur = [] then split_ws_from [] cs else rev cur # split_ws_from [] cs)
      else split_ws_from (c # cur) cs)"

definition split_ws :: "string \<Rightarrow> string list" where
  "split_ws s = split_ws_from [] s"

fun splitlines_from :: "string \<Rightarrow> string \<Rightarrow> string list" where
  \<comment> \<open>\<^verbatim>\<open>str.splitlines()\<close>; a carriage return followed by a line feed is one boundary,
      and a final boundary opens no empty last line.\<close>
  "splitlines_from cur [] = (if cur = [] then [] else [rev cur])"
| "splitlines_from cur (c # cs) =
     (if is_linebreak c
      then rev cur #
        (case cs of
           [] \<Rightarrow> splitlines_from [] []
         | d # ds \<Rightarrow>
             if c = CHR 0x0D \<and> d = CHR 0x0A then splitlines_from [] ds
             else splitlines_from [] (d # ds))
      else splitlines_from (c # cur) cs)"

definition splitlines :: "string \<Rightarrow> string list" where
  "splitlines s = splitlines_from [] s"

fun partition_sep :: "string \<Rightarrow> string \<Rightarrow> (string \<times> string) option" where
  \<comment> \<open>the text before and after the first occurrence of a separator, if there is one.\<close>
  "partition_sep sep [] = (if sep = [] then Some ([], []) else None)"
| "partition_sep sep (c # cs) =
     (if prefix sep (c # cs) then Some ([], drop (length sep) (c # cs))
      else map_option (\<lambda>(b, a). (c # b, a)) (partition_sep sep cs))"

definition partition_str :: "string \<Rightarrow> string \<Rightarrow> string \<times> string \<times> string" where
  \<comment> \<open>\<^verbatim>\<open>s.partition(sep)\<close>\<close>
  "partition_str s sep =
     (case partition_sep sep s of
        None \<Rightarrow> (s, [], [])
      | Some (b, a) \<Rightarrow> (b, sep, a))"

function split_sep :: "string \<Rightarrow> string \<Rightarrow> string list" where
  \<comment> \<open>\<^verbatim>\<open>s.split(sep)\<close> for a separator that is not empty.\<close>
  "split_sep s sep =
     (if sep = [] then [s]
      else case partition_sep sep s of
             None \<Rightarrow> [s]
           | Some (b, a) \<Rightarrow> b # split_sep a sep)"
  by pat_completeness auto
termination
proof (relation "measure (\<lambda>(s, sep). length s)")
  show "wf (measure (\<lambda>(s, sep). length s))"
    by simp
next
  fix s sep :: string and x2 b a
  assume sep: "sep \<noteq> []" and part: "partition_sep sep s = Some x2" and x2: "(b, a) = x2"
  have "partition_sep sep t = Some (b', a) \<Longrightarrow> length a < length t" for t b'
  proof (induction t arbitrary: b')
    case Nil
    with sep show ?case by simp
  next
    case (Cons c cs)
    show ?case
    proof (cases "prefix sep (c # cs)")
      case True
      with Cons.prems sep show ?thesis by auto
    next
      case False
      with Cons.prems obtain b'' where "partition_sep sep cs = Some (b'', a)"
        by (auto split: prod.splits)
      with Cons.IH show ?thesis by fastforce
    qed
  qed
  from this [of s b] part x2 show "((a, sep), (s, sep)) \<in> measure (\<lambda>(s, sep). length s)"
    by auto
qed

declare split_sep.simps [simp del]

definition split_first :: "string \<Rightarrow> string \<Rightarrow> string" where
  \<comment> \<open>\<^verbatim>\<open>s.split(sep, 1)[0]\<close>\<close>
  "split_first s sep = fst (partition_str s sep)"

fun join :: "string \<Rightarrow> string list \<Rightarrow> string" where
  \<comment> \<open>\<^verbatim>\<open>sep.join(parts)\<close>\<close>
  "join sep [] = []"
| "join sep [p] = p"
| "join sep (p # q # ps) = p @ sep @ join sep (q # ps)"

section \<open>Model extractor and name normalizer\<close>

definition extract_model_name :: "string \<Rightarrow> string option" where
  \<comment> \<open>\<^verbatim>\<open>_extract_model_name\<close>; \<^verbatim>\<open>None\<close> is \<^const>\<open>None\<close>.\<close>
  "extract_model_name test_node_id =
     (let file_path = split_first test_node_id ''::''
      in if startswith file_path ''tests/models/''
         then (let parts = split_sep file_path ''/''
               in if 3 \<le> length parts then Some (parts ! 2) else None)
         else None)"

definition suffix_matches :: "string \<Rightarrow> bool" where
  \<comment> \<open>the pattern \<^verbatim>\<open>_\d{2,}.*$\<close> matches at the start of the text: an underscore and
      two digits, then no line feed up to the end of the text or up to a line feed that
      ends the text.\<close>
  "suffix_matches s =
     (case s of
        u # a # b # r \<Rightarrow> u = CHR ''_'' \<and> isdigit a \<and> isdigit b \<and> CHR 0x0A \<notin> set (butlast r)
      | _ \<Rightarrow> False)"

fun sub_numeric_suffix :: "string \<Rightarrow> string" where
  \<comment> \<open>\<^verbatim>\<open>re.sub(r"_\d{2,}.*$", "", s)\<close>: the leftmost match is removed; it runs to the
      end of the text, or to the line feed ending the text, which stays.\<close>
  "sub_numeric_suffix [] = []"
| "sub_numeric_suffix (c # cs) =
     (if suffix_matches (c # cs)
      then (if last cs = CHR 0x0A then [CHR 0x0A] else [])
      else c # sub_numeric_suffix cs)"

definition apply_last :: "(string \<Rightarrow> string) \<Rightarrow> string list \<Rightarrow> string list" where
  \<comment> \<open>\<^verbatim>\<open>parts[-1] = f(parts[-1])\<close> on a list that is not empty.\<close>
  "apply_last f parts = butlast parts @ [f (last parts)]"

definition normalize_test_name :: "string \<Rightarrow> string" where
  \<comment> \<open>\<^verbatim>\<open>_normalize_test_name\<close>\<close>
  "normalize_test_name test_name =
     (let base_name = split_first test_name ''['';
          parts = split_sep base_name ''::'';
          parts' = (if parts \<noteq> [] then apply_last sub_numeric_suffix parts else parts)
      in join ''::'' parts')"

section \<open>Failure aggregator\<close>

record failure_entry =
  job_name :: string
  test_name :: string
  error :: string
  model_name :: "string option"

text \<open>
  A Python dictionary keeps its keys in insertion order, and the report depends on that
  order, so a dictionary is a list of key-value pairs. A group is the dictionary
  \<^verbatim>\<open>{"count": ..., "errors": ...}\<close>; its counts start at zero and are only incremented.
\<close>

record agg_group =
  count :: nat
  errors :: "(string \<times> nat) list"

fun counter_incr :: "(string \<times> nat) list \<Rightarrow> string \<Rightarrow> (string \<times> nat) list" where
  \<comment> \<open>\<^verbatim>\<open>counter[error] += 1\<close> on a \<^verbatim>\<open>Counter\<close>: a new message is added last.\<close>
  "counter_incr [] e = [(e, 0 + 1)]"
| "counter_incr ((k, n) # c) e =
     (if k = e then (k, n + 1) # c else (k, n) # counter_incr c e)"

definition record_failure :: "agg_group \<Rightarrow> string \<Rightarrow> agg_group" where
  "record_failure g e = g\<lparr>count := count g + 1, errors := counter_incr (errors g) e\<rparr>"

fun add_failure ::
  "(string \<times> agg_group) list \<Rightarrow> string \<Rightarrow> string \<Rightarrow> (string \<times> agg_group) list" where
  \<comment> \<open>the three statements under \<^verbatim>\<open># Aggregate by test\<close> (and by model): a missing key is
      added last with an empty group, then the group of the key is updated.\<close>
  "add_failure [] key e = [(key, record_failure \<lparr>count = 0, errors = []\<rparr> e)]"
| "add_failure ((k, g) # m) key e =
     (if k = key then (k, record_failure g e) # m else (k, g) # add_failure m key e)"

definition truthy :: "string option \<Rightarrow> bool" where
  \<comment> \<open>\<^verbatim>\<open>if model_name:\<close> is false for \<^verbatim>\<open>None\<close> and for the empty string.\<close>
  "truthy v = (case v of None \<Rightarrow> False | Some s \<Rightarrow> s \<noteq> [])"

definition aggregate_entry ::
  "(string \<times> agg_group) list \<times> (string \<times> agg_group) list \<Rightarrow> failure_entry \<Rightarrow>
   (string \<times> agg_group) list \<times> (string \<times> agg_group) list" where
  \<comment> \<open>the body of the loop of \<^verbatim>\<open>_aggregate_failures\<close>\<close>
  "aggregate_entry st entry =
     (let normalized = normalize_test_name (test_name entry);
          by_test = add_failure (fst st) normalized (error entry);
          by_model = (if truthy (model_name entry)
                      then add_failure (snd st) (the (model_name entry)) (error entry)
                      else snd st)
      in (by_test, by_model))"

definition sorted_reverse :: "('a \<Rightarrow> nat) \<Rightarrow> 'a list \<Rightarrow> 'a list" where
  \<comment> \<open>\<^verbatim>\<open>sorted(xs, key=key, reverse=True)\<close>: the list is reversed, sorted by a stable
      sort and reversed again.\<close>
  "sorted_reverse key xs = rev (sort_key key (rev xs))"

definition most_common :: "(string \<times> nat) list \<Rightarrow> (string \<times> nat) list" where
  \<comment> \<open>\<^verbatim>\<open>dict(counter.most_common())\<close>\<close>
  "most_common c = sorted_reverse snd c"

definition finish_groups :: "(string \<times> agg_group) list \<Rightarrow> (string \<times> agg_group) list" where
  "finish_groups m = map (\<lambda>(k, info). (k, info\<lparr>errors := most_common (errors info)\<rparr>)) m"

definition aggregate_failures ::
  "failure_entry list \<Rightarrow> (string \<times> agg_group) list \<times> (string \<times> agg_group) list" where
  \<comment> \<open>\<^verbatim>\<open>_aggregate_failures\<close>\<close>
  "aggregate_failures failure_entries =
     (let st = foldl aggregate_entry ([], []) failure_entries
      in (finish_groups (fst st), finish_groups (snd st)))"

section \<open>Report renderer\<close>

function str_nat :: "nat \<Rightarrow> string" where
  \<comment> \<open>the decimal digits of a count, as an f-string prints it.\<close>
  "str_nat n =
     (if n < 10 then [char_of (48 + n)]
      else str_nat (n div 10) @ [char_of (48 + n mod 10)])"
  by pat_completeness auto
termination
  by (relation "measure id") auto

declare str_nat.simps [simp del]

definition format_errors :: "(string \<times> nat) list \<Rightarrow> string" where
  "format_errors errs =
     join ''; '' (map (\<lambda>(msg, n). str_nat n @ [CHR 0xD7] @ '' '' @ msg) errs)"

definition table_lines :: "string \<Rightarrow> string \<Rightarrow> (string \<times> agg_group) list \<Rightarrow> string list" where
  \<comment> \<open>a heading, the two header lines and one row for each group, by decreasing count;
      the source writes this block once for the tests and once for the models.\<close>
  "table_lines title column m =
     [''## '' @ title @ [CHR 0x0A],
      ''| '' @ column @ '' | Failures | Error(s) |'',
      ''| --- | --- | --- |''] @
     map (\<lambda>(name, info).
            ''| '' @ name @ '' | '' @ str_nat (count info) @ '' | '' @
            format_errors (errors info) @ '' |'')
         (sorted_reverse (\<lambda>x. count (snd x)) m)"

definition create_markdown_report ::
  "(string \<times> agg_group) list \<Rightarrow> (string \<times> agg_group) list \<Rightarrow> string" where
  \<comment> \<open>\<^verbatim>\<open>_create_markdown_report\<close>\<close>
  "create_markdown_report failures_by_test failures_by_model =
     (let lines = [''# Failure summary'' @ [CHR 0x0A]];
          lines = (if failures_by_test \<noteq> []
                   then lines @ table_lines ''By test'' ''Test'' failures_by_test @ [[]] @
                        table_lines ''By model'' ''Model'' failures_by_model
                   else lines @ [''No failures were reported.'' @ [CHR 0x0A]])
      in join [CHR 0x0A] lines)"

section \<open>Summary parser\<close>

datatype py_error = IndexError

fun dict_set :: "(string \<times> 'v) list \<Rightarrow> string \<Rightarrow> 'v \<Rightarrow> (string \<times> 'v) list" where
  \<comment> \<open>\<^verbatim>\<open>d[k] = v\<close>\<close>
  "dict_set [] k v = [(k, v)]"
| "dict_set ((k', v') # d) k v = (if k' = k then (k', v) # d else (k', v') # dict_set d k v)"

definition summary_line ::
  "(string \<times> string) list \<Rightarrow> string \<Rightarrow> py_error + (string \<times> string) list" where
  \<comment> \<open>one line of a node's summary; \<^verbatim>\<open>split()[0]\<close> raises when there is no word.\<close>
  "summary_line summary line =
     (if startswith line ''PASSED ''
      then Inr (dict_set summary (drop (length ''PASSED '') line) ''passed'')
      else if startswith line ''FAILED ''
      then (case split_ws (drop (length ''FAILED '') line) of
              [] \<Rightarrow> Inl IndexError
            | test # _ \<Rightarrow> Inr (dict_set summary test ''failed''))
      else Inr summary)"

fun summary_lines ::
  "(string \<times> string) list \<Rightarrow> string list \<Rightarrow> py_error + (string \<times> string) list" where
  "summary_lines summary [] = Inr summary"
| "summary_lines summary (line # ls) =
     (case summary_line summary line of
        Inl e \<Rightarrow> Inl e
      | Inr summary' \<Rightarrow> summary_lines summary' ls)"

fun parse_summaries ::
  "(string \<times> string) list \<Rightarrow> string list \<Rightarrow> py_error + (string \<times> string) list" where
  \<comment> \<open>the loop over the summary texts of the nodes of a job, before the mapping is sorted.\<close>
  "parse_summaries summary [] = Inr summary"
| "parse_summaries summary (node_test_summary # rest) =
     (case summary_lines summary (splitlines node_test_summary) of
        Inl e \<Rightarrow> Inl e
      | Inr summary' \<Rightarrow> parse_summaries summary' rest)"

definition keep_failure_line :: "string \<Rightarrow> bool" where
  "keep_failure_line line =
     (line \<noteq> [] \<and> \<not> (startswith line ''='' \<or> startswith line ''_'') \<and> contains line '': '' \<and>
      \<not> startswith (lower line) ''short test summary'')"

definition failure_lines_list :: "string option \<Rightarrow> string list" where
  \<comment> \<open>the failure lines of a node; \<^const>\<open>None\<close> when the job has no such text for it.\<close>
  "failure_lines_list detail =
     (case detail of
        None \<Rightarrow> []
      | Some text \<Rightarrow> filter keep_failure_line (map strip (splitlines text)))"

definition is_failure_line :: "string \<Rightarrow> bool" where
  "is_failure_line line =
     (startswith line ''FAILED '' \<and> \<not> contains line '' - Failed: (subprocess)'')"

definition short_error_of :: "string \<Rightarrow> string" where
  \<comment> \<open>\<^verbatim>\<open>short_error\<close>: the third component of the partition of the stripped rest of the
      line.\<close>
  "short_error_of line =
     snd (snd (partition_str (strip (drop (length ''FAILED '') line)) '' - ''))"

definition failure_entry_of :: "string \<Rightarrow> string list \<Rightarrow> nat \<Rightarrow> string \<Rightarrow> failure_entry" where
  "failure_entry_of job lines_list failure_idx line =
     (let failure_line = strip (drop (length ''FAILED '') line);
          name = fst (partition_str failure_line '' - '');
          short_error = short_error_of line;
          full_error = (if failure_idx < length lines_list then lines_list ! failure_idx
                        else short_error)
      in \<lparr>job_name = job, test_name = strip name, error = full_error,
          model_name = extract_model_name (strip name)\<rparr>)"

fun collect_failures :: "string \<Rightarrow> string list \<Rightarrow> nat \<Rightarrow> string list \<Rightarrow> failure_entry list" where
  \<comment> \<open>the loop over the lines of a node's summary; the result is what it appends to
      \<^verbatim>\<open>failure_entries\<close>.\<close>
  "collect_failures job lines_list failure_idx [] = []"
| "collect_failures job lines_list failure_idx (line # ls) =
     (if is_failure_line line
      then failure_entry_of job lines_list failure_idx line #
           collect_failures job lines_list (failure_idx + 1) ls
      else collect_failures job lines_list failure_idx ls)"

definition node_failures :: "string \<Rightarrow> string \<Rightarrow> string option \<Rightarrow> failure_entry list" where
  "node_failures job summary_text detail =
     collect_failures job (failure_lines_list detail) 0 (splitlines summary_text)"

section \<open>Splitting and joining\<close>

lemma partition_sep_Some:
  "partition_sep sep s = Some (b, a) \<Longrightarrow> s = b @ sep @ a"
proof (induction s arbitrary: b)
  case Nil
  then show ?case by (simp split: if_splits)
next
  case (Cons c cs)
  show ?case
  proof (cases "prefix sep (c # cs)")
    case True
    with Cons.prems have "b = []" and "a = drop (length sep) (c # cs)" by auto
    moreover from True obtain zs where "c # cs = sep @ zs" by (auto simp: prefix_def)
    ultimately show ?thesis by simp
  next
    case False
    with Cons.prems obtain b' where "partition_sep sep cs = Some (b', a)" and "b = c # b'"
      by (auto split: prod.splits)
    with Cons.IH show ?thesis by simp
  qed
qed

lemma partition_sep_None_take:
  "partition_sep sep s = None \<Longrightarrow> sep \<noteq> [] \<Longrightarrow> partition_sep sep (take n s) = None"
proof (induction s arbitrary: n)
  case Nil
  then show ?case by simp
next
  case (Cons c cs)
  from Cons.prems have np: "\<not> prefix sep (c # cs)" and rest: "partition_sep sep cs = None"
    by (auto split: if_splits)
  show ?case
  proof (cases n)
    case 0
    with Cons.prems show ?thesis by simp
  next
    case (Suc m)
    have "prefix (c # take m cs) (c # cs)" by (simp add: take_is_prefix)
    with np have "\<not> prefix sep (c # take m cs)" using prefix_order.trans by blast
    with Suc Cons.IH [OF rest Cons.prems(2)] show ?thesis by simp
  qed
qed

lemma partition_sep_first:
  "partition_sep sep (b @ sep @ a) = Some (b, a) \<Longrightarrow> partition_sep sep (b @ sep @ x) = Some (b, x)"
proof (induction b)
  case Nil
  show ?case
  proof (cases "sep @ x")
    case Nil
    then show ?thesis by simp
  next
    case (Cons d ds)
    have "prefix sep (sep @ x)" and "drop (length sep) (sep @ x) = x" by simp_all
    with Cons have "prefix sep (d # ds)" and "drop (length sep) (d # ds) = x" by simp_all
    then have "partition_sep sep (d # ds) = Some ([], x)" by simp
    with Cons show ?thesis by simp
  qed
next
  case (Cons c b)
  have len: "prefix sep (c # b @ sep @ z) = prefix sep (c # b @ sep)" for z
    using prefix_append [of sep "c # b @ sep" z] by auto
  from Cons.prems have np: "\<not> prefix sep (c # b @ sep @ a)"
    by (auto split: if_splits)
  with len [of a] have "\<not> prefix sep (c # b @ sep)" by simp
  with len [of x] have np': "\<not> prefix sep (c # b @ sep @ x)" by simp
  from Cons.prems np have "partition_sep sep (b @ sep @ a) = Some (b, a)"
    by (auto split: prod.splits)
  with Cons.IH np' show ?case by simp
qed

lemma split_sep_nonempty: "split_sep s sep \<noteq> []"
  by (subst split_sep.simps) (auto split: option.splits)

lemma split_first_char: "split_first s [c] = takeWhile (\<lambda>x. x \<noteq> c) s"
proof -
  have "fst (partition_str s [c]) = takeWhile (\<lambda>x. x \<noteq> c) s"
    by (induction s) (auto simp: partition_str_def split: option.splits)
  then show ?thesis by (simp add: split_first_def)
qed

lemma set_split_sep: "p \<in> set (split_sep s sep) \<Longrightarrow> set p \<subseteq> set s"
proof (induction s sep rule: split_sep.induct)
  case (1 s sep)
  show ?case
  proof (cases "sep = [] \<or> partition_sep sep s = None")
    case True
    then have "split_sep s sep = [s]" by (subst split_sep.simps) auto
    with "1.prems" show ?thesis by simp
  next
    case False
    then obtain b a where part: "partition_sep sep s = Some (b, a)" and sep: "sep \<noteq> []"
      by auto
    then have s: "s = b @ sep @ a" by (simp add: partition_sep_Some)
    from part sep "1.prems" have "p = b \<or> p \<in> set (split_sep a sep)"
      by (subst (asm) split_sep.simps) auto
    then show ?thesis
    proof
      assume "p = b"
      with s show ?thesis by auto
    next
      assume "p \<in> set (split_sep a sep)"
      with "1.IH" [OF sep part refl] have "set p \<subseteq> set a" by simp
      with s show ?thesis by auto
    qed
  qed
qed

lemma set_join: "set (join sep ps) \<subseteq> set sep \<union> \<Union> (set ` set ps)"
  by (induction sep ps rule: join.induct) auto

lemma suffix_matches_last:
  "suffix_matches (c # cs) \<Longrightarrow> last cs \<in> set cs"
  by (auto simp: suffix_matches_def split: list.splits)

lemma sub_numeric_suffix_prefix:
  "CHR 0x0A \<notin> set s \<Longrightarrow> prefix (sub_numeric_suffix s) s"
proof (induction s)
  case Nil
  show ?case by simp
next
  case (Cons c cs)
  show ?case
  proof (cases "suffix_matches (c # cs)")
    case True
    from suffix_matches_last [OF True] Cons.prems have "last cs \<noteq> CHR 0x0A" by auto
    with True show ?thesis by simp
  next
    case False
    with Cons show ?thesis by simp
  qed
qed

lemma set_sub_numeric_suffix: "set (sub_numeric_suffix s) \<subseteq> set s"
proof (induction s)
  case Nil
  show ?case by simp
next
  case (Cons c cs)
  show ?case
  proof (cases "suffix_matches (c # cs)")
    case True
    then have "cs \<noteq> []" by (auto simp: suffix_matches_def split: list.splits)
    then have "last cs \<in> set cs" by simp
    with True show ?thesis by auto
  next
    case False
    with Cons show ?thesis by auto
  qed
qed

lemma suffix_matches_no_newline:
  "CHR 0x0A \<notin> set s \<Longrightarrow>
   suffix_matches s = (\<exists>a b r. s = CHR ''_'' # a # b # r \<and> isdigit a \<and> isdigit b)"
  by (auto simp: suffix_matches_def split: list.splits dest: in_set_butlastD)

lemma sub_numeric_suffix_idem:
  "CHR 0x0A \<notin> set s \<Longrightarrow> sub_numeric_suffix (sub_numeric_suffix s) = sub_numeric_suffix s"
proof (induction s)
  case Nil
  show ?case by simp
next
  case (Cons c cs)
  then have nl: "CHR 0x0A \<notin> set cs" and c: "c \<noteq> CHR 0x0A" by auto
  show ?case
  proof (cases "suffix_matches (c # cs)")
    case True
    then have "cs \<noteq> []" by (auto simp: suffix_matches_def split: list.splits)
    with nl have "last cs \<noteq> CHR 0x0A" using last_in_set by metis
    with True show ?thesis by simp
  next
    case False
    have "\<not> suffix_matches (c # sub_numeric_suffix cs)"
    proof
      assume m: "suffix_matches (c # sub_numeric_suffix cs)"
      from nl set_sub_numeric_suffix [of cs] have "CHR 0x0A \<notin> set (c # sub_numeric_suffix cs)"
        using c by auto
      from m suffix_matches_no_newline [OF this]
      obtain a b r where c': "c = CHR ''_''" and sub: "sub_numeric_suffix cs = a # b # r"
        and d: "isdigit a" "isdigit b" by auto
      from sub_numeric_suffix_prefix [OF nl] sub obtain r' where "cs = a # b # r'"
        by (auto simp: prefix_def)
      with c' d suffix_matches_no_newline [OF Cons.prems] have "suffix_matches (c # cs)"
        by auto
      with False show False by simp
    qed
    with False Cons.IH [OF nl] show ?thesis by simp
  qed
qed

lemma partition_sep_None_sub:
  assumes "partition_sep sep s = None" and "sep \<noteq> []" and "CHR 0x0A \<notin> set s"
  shows "partition_sep sep (sub_numeric_suffix s) = None"
proof -
  from sub_numeric_suffix_prefix [OF assms(3)]
  obtain zs where "s = sub_numeric_suffix s @ zs" by (auto simp: prefix_def)
  then have "sub_numeric_suffix s = take (length (sub_numeric_suffix s)) s"
    by (metis append_eq_conv_conj)
  with partition_sep_None_take [OF assms(1,2)] show ?thesis by metis
qed

lemma apply_last_Cons: "ps \<noteq> [] \<Longrightarrow> apply_last f (p # ps) = p # apply_last f ps"
  by (simp add: apply_last_def)

lemma apply_last_nonempty: "apply_last f ps \<noteq> []"
  by (simp add: apply_last_def)

lemma join_Cons: "ps \<noteq> [] \<Longrightarrow> join sep (p # ps) = p @ sep @ join sep ps"
  by (cases ps) auto

lemma split_join_apply_last:
  "sep \<noteq> [] \<Longrightarrow> CHR 0x0A \<notin> set s \<Longrightarrow>
   split_sep (join sep (apply_last sub_numeric_suffix (split_sep s sep))) sep =
   apply_last sub_numeric_suffix (split_sep s sep)"
proof (induction s sep rule: split_sep.induct)
  case (1 s sep)
  note sep = \<open>sep \<noteq> []\<close>
  show ?case
  proof (cases "partition_sep sep s")
    case None
    with sep have split: "split_sep s sep = [s]" by (subst split_sep.simps) simp
    from partition_sep_None_sub [OF None sep "1.prems"(2)]
    have "split_sep (sub_numeric_suffix s) sep = [sub_numeric_suffix s]"
      using sep by (subst split_sep.simps) simp
    with split show ?thesis by (simp add: apply_last_def)
  next
    case (Some ba)
    obtain b a where ba: "ba = (b, a)" by (cases ba)
    with Some have part: "partition_sep sep s = Some (b, a)" by simp
    then have s: "s = b @ sep @ a" by (rule partition_sep_Some)
    with "1.prems"(2) have nl: "CHR 0x0A \<notin> set a" by auto
    from part sep have split: "split_sep s sep = b # split_sep a sep"
      by (subst split_sep.simps) simp
    let ?qs = "apply_last sub_numeric_suffix (split_sep a sep)"
    have IH: "split_sep (join sep ?qs) sep = ?qs"
      using "1.IH" [OF sep part refl sep nl] .
    from part s have "partition_sep sep (b @ sep @ join sep ?qs) = Some (b, join sep ?qs)"
      using partition_sep_first by metis
    with sep have "split_sep (b @ sep @ join sep ?qs) sep = b # split_sep (join sep ?qs) sep"
      by (subst split_sep.simps) simp
    with IH split show ?thesis
      by (simp add: apply_last_Cons split_sep_nonempty join_Cons apply_last_nonempty)
  qed
qed

section \<open>The name normalizer is idempotent on single lines\<close>

lemma normalize_test_name_parts:
  "normalize_test_name s =
     join ''::'' (apply_last sub_numeric_suffix (split_sep (split_first s ''['') ''::''))"
  by (simp add: normalize_test_name_def split_sep_nonempty)

lemma set_apply_last_sub:
  assumes "ps \<noteq> []" and "q \<in> set (apply_last sub_numeric_suffix ps)"
  shows "\<exists>p \<in> set ps. set q \<subseteq> set p"
proof (cases "q \<in> set (butlast ps)")
  case True
  then have "q \<in> set ps" by (rule in_set_butlastD)
  then show ?thesis by auto
next
  case False
  with assms(2) have "q = sub_numeric_suffix (last ps)" by (simp add: apply_last_def)
  with set_sub_numeric_suffix [of "last ps"] assms(1) show ?thesis
    by (metis last_in_set)
qed

lemma set_normalize_test_name:
  "set (normalize_test_name s) \<subseteq> insert CHR '':'' (set (split_first s ''[''))"
proof
  fix x
  assume "x \<in> set (normalize_test_name s)"
  with set_join [of "''::''" "apply_last sub_numeric_suffix (split_sep (split_first s ''['') ''::'')"]
  have "x = CHR '':'' \<or>
        (\<exists>q \<in> set (apply_last sub_numeric_suffix (split_sep (split_first s ''['') ''::'')). x \<in> set q)"
    by (auto simp: normalize_test_name_parts)
  then show "x \<in> insert CHR '':'' (set (split_first s ''[''))"
  proof
    assume "x = CHR '':''"
    then show ?thesis by simp
  next
    assume "\<exists>q \<in> set (apply_last sub_numeric_suffix (split_sep (split_first s ''['') ''::'')). x \<in> set q"
    then obtain q where q: "q \<in> set (apply_last sub_numeric_suffix (split_sep (split_first s ''['') ''::''))"
      and x: "x \<in> set q" by auto
    from set_apply_last_sub [OF split_sep_nonempty q]
    obtain p where "p \<in> set (split_sep (split_first s ''['') ''::'')" and "set q \<subseteq> set p"
      by auto
    with x set_split_sep [of p "split_first s ''[''" "''::''"] show ?thesis by auto
  qed
qed

lemma split_first_bracket_normalize:
  "split_first (normalize_test_name s) ''['' = normalize_test_name s"
proof -
  have "CHR ''['' \<notin> set (split_first s ''['')"
    by (auto simp: split_first_char dest: set_takeWhileD)
  with set_normalize_test_name [of s] have "CHR ''['' \<notin> set (normalize_test_name s)"
    by auto
  then show ?thesis by (auto simp: split_first_char takeWhile_eq_all_conv)
qed

text \<open>
  Claim C5, as the code has it. Normalizing raises no error for any text: the split of the
  base name always has a last part. Normalizing twice gives the same as normalizing once
  for every text without a line feed, which covers every test name read from a line of a
  summary. With a line feed the pattern's \<^verbatim>\<open>$\<close> also matches before a final line feed, and
  a second pass can remove more than the first.
\<close>

theorem normalize_test_name_idempotent:
  "split_sep (split_first s ''['') ''::'' \<noteq> [] \<and>
   (CHR 0x0A \<notin> set s \<longrightarrow>
      normalize_test_name (normalize_test_name s) = normalize_test_name s)"
proof (intro conjI impI)
  show "split_sep (split_first s ''['') ''::'' \<noteq> []"
    by (rule split_sep_nonempty)
next
  assume nl: "CHR 0x0A \<notin> set s"
  let ?b = "split_first s ''[''"
  let ?ps = "split_sep ?b ''::''"
  have nlb: "CHR 0x0A \<notin> set ?b"
    using nl by (auto simp: split_first_char dest: set_takeWhileD)
  have "last ?ps \<in> set ?ps" by (simp add: split_sep_nonempty)
  with set_split_sep [of "last ?ps" ?b "''::''"] nlb have "CHR 0x0A \<notin> set (last ?ps)" by auto
  then have idem: "sub_numeric_suffix (sub_numeric_suffix (last ?ps)) = sub_numeric_suffix (last ?ps)"
    by (rule sub_numeric_suffix_idem)
  have "split_sep (normalize_test_name s) ''::'' = apply_last sub_numeric_suffix ?ps"
    using split_join_apply_last [of "''::''" ?b] nlb by (simp add: normalize_test_name_parts)
  then have "normalize_test_name (normalize_test_name s) =
             join ''::'' (apply_last sub_numeric_suffix (apply_last sub_numeric_suffix ?ps))"
    by (simp add: normalize_test_name_parts [of "normalize_test_name s"] split_first_bracket_normalize)
  also have "apply_last sub_numeric_suffix (apply_last sub_numeric_suffix ?ps) =
             apply_last sub_numeric_suffix ?ps"
    using idem by (simp add: apply_last_def)
  finally show "normalize_test_name (normalize_test_name s) = normalize_test_name s"
    by (simp add: normalize_test_name_parts)
qed

theorem normalize_test_name_idempotent_witness:
  "CHR 0x0A \<notin> set ''pkg::test_bar_042_extra'' \<and>
   normalize_test_name (normalize_test_name ''pkg::test_bar_042_extra'') =
   normalize_test_name ''pkg::test_bar_042_extra''"
  using normalize_test_name_idempotent [of "''pkg::test_bar_042_extra''"] by simp

theorem normalize_test_name_not_idempotent:
  "normalize_test_name (normalize_test_name ''_12\<newline>_34'') \<noteq> normalize_test_name ''_12\<newline>_34''"
  by code_simp

section \<open>The model extractor\<close>

lemma join_split_sep: "sep \<noteq> [] \<Longrightarrow> join sep (split_sep s sep) = s"
proof (induction s sep rule: split_sep.induct)
  case (1 s sep)
  show ?case
  proof (cases "partition_sep sep s")
    case None
    with "1.prems" show ?thesis by (subst split_sep.simps) simp
  next
    case (Some ba)
    obtain b a where ba: "ba = (b, a)" by (cases ba)
    with Some have part: "partition_sep sep s = Some (b, a)" by simp
    then have s: "s = b @ sep @ a" by (rule partition_sep_Some)
    from part "1.prems" have "split_sep s sep = b # split_sep a sep"
      by (subst split_sep.simps) simp
    with "1.IH" [OF "1.prems" part refl "1.prems"] s show ?thesis
      by (simp add: join_Cons split_sep_nonempty)
  qed
qed

lemma hd_split_sep_char: "hd (split_sep r [c]) = takeWhile (\<lambda>x. x \<noteq> c) r"
proof -
  have "hd (split_sep r [c]) = split_first r [c]"
    by (subst split_sep.simps) (simp add: split_first_def partition_str_def split: option.splits)
  then show ?thesis by (simp add: split_first_char)
qed

lemma split_sep_tests_models:
  "split_sep (''tests/models/'' @ r) ''/'' = ''tests'' # ''models'' # split_sep r ''/''"
proof -
  have one: "split_sep (''tests/models/'' @ r) ''/'' = ''tests'' # split_sep (''models/'' @ r) ''/''"
    by (subst split_sep.simps) simp
  have two: "split_sep (''models/'' @ r) ''/'' = ''models'' # split_sep r ''/''"
    by (subst split_sep.simps) simp
  from one two show ?thesis by simp
qed

lemma extract_model_name_takeWhile:
  "extract_model_name s =
     (if startswith (split_first s ''::'') ''tests/models/''
      then Some (takeWhile (\<lambda>c. c \<noteq> CHR ''/'') (drop 13 (split_first s ''::'')))
      else None)"
proof (cases "startswith (split_first s ''::'') ''tests/models/''")
  case False
  then show ?thesis by (simp add: extract_model_name_def)
next
  case True
  then obtain r where fp: "split_first s ''::'' = ''tests/models/'' @ r"
    by (auto simp: startswith_def prefix_def)
  have len: "length ''tests/models/'' = 13" by simp
  have r: "drop 13 (split_first s ''::'') = r"
    unfolding fp by (simp only: len [symmetric] drop_append) simp
  obtain p ps where ps: "split_sep r ''/'' = p # ps"
    using split_sep_nonempty [of r "''/''"] by (cases "split_sep r ''/''") auto
  with hd_split_sep_char [of r "CHR ''/''"] have p: "p = takeWhile (\<lambda>c. c \<noteq> CHR ''/'') r"
    by simp
  from True have "extract_model_name s = Some p"
    unfolding extract_model_name_def Let_def fp split_sep_tests_models ps by simp
  with p r True show ?thesis by simp
qed

lemma partition_sep_None_iff:
  "sep \<noteq> [] \<Longrightarrow> (partition_sep sep s = None) = (\<not> sublist sep s)"
proof (induction s)
  case Nil
  then show ?case by simp
next
  case (Cons c cs)
  then show ?case by (auto simp: sublist_Cons_right)
qed

lemma partition_sep_dcolon_None: "\<not> sublist ''::'' s \<Longrightarrow> partition_sep ''::'' s = None"
proof -
  have "''::'' \<noteq> []" by simp
  from partition_sep_None_iff [OF this] show "\<not> sublist ''::'' s \<Longrightarrow> partition_sep ''::'' s = None"
    by blast
qed

lemma partition_sep_dcolon_NoneD: "partition_sep ''::'' s = None \<Longrightarrow> \<not> sublist ''::'' s"
proof -
  have "''::'' \<noteq> []" by simp
  from partition_sep_None_iff [OF this] show "partition_sep ''::'' s = None \<Longrightarrow> \<not> sublist ''::'' s"
    by blast
qed

lemma dcolon_prefix_Cons:
  "prefix ''::'' (c # cs) = (c = CHR '':'' \<and> (\<exists>r. cs = CHR '':'' # r))"
  by (cases cs) auto

lemma partition_sep_dcolon_first:
  "\<not> sublist ''::'' (p @ '':'') \<Longrightarrow> partition_sep ''::'' (p @ ''::'' @ r) = Some (p, r)"
proof (induction p)
  case Nil
  show ?case by simp
next
  case (Cons c p)
  from Cons.prems have np: "\<not> prefix ''::'' (c # p @ '':'')" and ns: "\<not> sublist ''::'' (p @ '':'')"
    by (auto simp: sublist_Cons_right)
  from np have "\<not> prefix ''::'' (c # p @ ''::'' @ r)"
    by (cases p) (auto simp: dcolon_prefix_Cons)
  with Cons.IH [OF ns] show ?case by simp
qed

lemma partition_sep_dcolon_before:
  "partition_sep ''::'' s = Some (b, a) \<Longrightarrow> \<not> sublist ''::'' (b @ '':'')"
proof (induction s arbitrary: b)
  case Nil
  then show ?case by simp
next
  case (Cons c cs)
  show ?case
  proof (cases "prefix ''::'' (c # cs)")
    case True
    then have "partition_sep ''::'' (c # cs) = Some ([], drop (length ''::'') (c # cs))"
      by (simp only: partition_sep.simps if_True)
    with Cons.prems have "b = []" by simp
    then show ?thesis by (simp add: sublist_Cons_right)
  next
    case False
    then have "partition_sep ''::'' (c # cs) =
        map_option (\<lambda>(b, a). (c # b, a)) (partition_sep ''::'' cs)"
      by (simp only: partition_sep.simps if_False)
    with Cons.prems have "map_option (\<lambda>(b, a). (c # b, a)) (partition_sep ''::'' cs) = Some (b, a)"
      by simp
    then obtain b' where part: "partition_sep ''::'' cs = Some (b', a)" and b: "b = c # b'"
      by (auto split: prod.splits)
    from part have cs: "cs = b' @ ''::'' @ a" by (rule partition_sep_Some)
    from False cs have "\<not> prefix ''::'' (c # b' @ '':'')"
      by (cases b') (auto simp: dcolon_prefix_Cons)
    with Cons.IH [OF part] b show ?thesis by (simp add: sublist_Cons_right)
  qed
qed

lemma split_first_dcolon_cases:
  "split_first s ''::'' = s \<and> \<not> sublist ''::'' s \<or>
   (\<exists>rest. s = split_first s ''::'' @ ''::'' @ rest) \<and>
     \<not> sublist ''::'' (split_first s ''::'' @ '':'')"
proof (cases "partition_sep ''::'' s")
  case None
  then have "\<not> sublist ''::'' s" by (rule partition_sep_dcolon_NoneD)
  with None show ?thesis by (simp add: split_first_def partition_str_def)
next
  case (Some ba)
  obtain b a where "ba = (b, a)" by (cases ba)
  with Some have part: "partition_sep ''::'' s = Some (b, a)" by simp
  then have "s = b @ ''::'' @ a" by (rule partition_sep_Some)
  moreover from part have "\<not> sublist ''::'' (b @ '':'')" by (rule partition_sep_dcolon_before)
  ultimately have main: "(\<exists>rest. s = b @ ''::'' @ rest) \<and> \<not> sublist ''::'' (b @ '':'')"
    by blast
  from part have sf: "split_first s ''::'' = b"
    by (simp add: split_first_def partition_str_def)
  show ?thesis unfolding sf using main by (rule disjI2)
qed

lemma split_first_dcolon_unique:
  assumes "s = path \<and> \<not> sublist ''::'' s \<or>
           (\<exists>rest. s = path @ ''::'' @ rest) \<and> \<not> sublist ''::'' (path @ '':'')"
  shows "split_first s ''::'' = path"
  using assms
proof
  assume a: "s = path \<and> \<not> sublist ''::'' s"
  then have "\<not> sublist ''::'' s" by (rule conjunct2)
  then have "partition_sep ''::'' s = None" by (rule partition_sep_dcolon_None)
  with a show ?thesis by (simp add: split_first_def partition_str_def)
next
  assume "(\<exists>rest. s = path @ ''::'' @ rest) \<and> \<not> sublist ''::'' (path @ '':'')"
  then obtain rest where "s = path @ ''::'' @ rest" and "\<not> sublist ''::'' (path @ '':'')" by blast
  then have "partition_sep ''::'' s = Some (path, rest)"
    using partition_sep_dcolon_first by simp
  then show ?thesis by (simp add: split_first_def partition_str_def)
qed

lemma takeWhile_segment:
  assumes "c \<notin> set m" and "t = [] \<or> hd t = c"
  shows "takeWhile (\<lambda>x. x \<noteq> c) (m @ t) = m"
proof -
  from assms(1) have "takeWhile (\<lambda>x. x \<noteq> c) (m @ t) = m @ takeWhile (\<lambda>x. x \<noteq> c) t"
    by (intro takeWhile_append2) auto
  moreover from assms(2) have "takeWhile (\<lambda>x. x \<noteq> c) t = []" by (cases t) auto
  ultimately show ?thesis by simp
qed


lemma drop_tests_models: "drop 13 (''tests/models/'' @ r) = r"
proof -
  have "length ''tests/models/'' = 13" by simp
  then have "drop (length ''tests/models/'') (''tests/models/'' @ r) = drop 13 (''tests/models/'' @ r)"
    by (simp only:)
  then show ?thesis by simp
qed

text \<open>
  Claim C6. Every identifier has a path: the identifier itself when it holds no \<^verbatim>\<open>::\<close>,
  and otherwise the text before its first \<^verbatim>\<open>::\<close>, which is the one followed by \<^verbatim>\<open>::\<close> such
  that no \<^verbatim>\<open>::\<close> begins inside it. The extractor works on that path. When the path is
  \<^verbatim>\<open>tests/models/\<close>, then a text without a slash, then nothing or a slash and more, the
  extractor returns that text: it is the segment of index 2, after the segments
  \<^verbatim>\<open>tests\<close> and \<^verbatim>\<open>models\<close>, and such a path always has three segments. When the path does
  not start with \<^verbatim>\<open>tests/models/\<close>, the extractor returns nothing. The segments are the
  pieces between the slashes of the path: joined by slashes they give the path back. So
  the extractor returns \<^verbatim>\<open>bart\<close> for a test under \<^verbatim>\<open>tests/models/bart/\<close> and nothing for a
  test under \<^verbatim>\<open>tests/other/\<close>.
\<close>

theorem extract_model_name_third_segment:
  "(\<exists>path. s = path \<and> \<not> sublist ''::'' s \<or>
            (\<exists>rest. s = path @ ''::'' @ rest) \<and> \<not> sublist ''::'' (path @ '':'')) \<and>
   (\<forall>path. (s = path \<and> \<not> sublist ''::'' s \<or>
             (\<exists>rest. s = path @ ''::'' @ rest) \<and> \<not> sublist ''::'' (path @ '':'')) \<longrightarrow>
      split_first s ''::'' = path \<and>
      (\<forall>m t. path = ''tests/models/'' @ m @ t \<and> CHR ''/'' \<notin> set m \<and> (t = [] \<or> hd t = CHR ''/'') \<longrightarrow>
             extract_model_name s = Some m) \<and>
      (\<not> prefix ''tests/models/'' path \<longrightarrow> extract_model_name s = None) \<and>
      (prefix ''tests/models/'' path \<longrightarrow>
         3 \<le> length (split_sep path ''/'') \<and>
         split_sep path ''/'' ! 0 = ''tests'' \<and> split_sep path ''/'' ! 1 = ''models'') \<and>
      join ''/'' (split_sep path ''/'') = path \<and>
      extract_model_name s =
        (if startswith path ''tests/models/'' \<and> 3 \<le> length (split_sep path ''/'')
         then Some (split_sep path ''/'' ! 2) else None)) \<and>
   extract_model_name ''tests/models/bart/test_modeling_bart.py::TestBart::test_x'' = Some ''bart'' \<and>
   extract_model_name ''tests/other/test_x.py::test_y'' = None"
proof (intro conjI allI impI)
  show "\<exists>path. s = path \<and> \<not> sublist ''::'' s \<or>
            (\<exists>rest. s = path @ ''::'' @ rest) \<and> \<not> sublist ''::'' (path @ '':'')"
    using split_first_dcolon_cases [of s] by metis
next
  fix path
  assume cut: "s = path \<and> \<not> sublist ''::'' s \<or>
             (\<exists>rest. s = path @ ''::'' @ rest) \<and> \<not> sublist ''::'' (path @ '':'')"
  then show sf: "split_first s ''::'' = path"
    by (rule split_first_dcolon_unique)
  have ex: "extract_model_name s =
      (if startswith path ''tests/models/''
       then Some (takeWhile (\<lambda>c. c \<noteq> CHR ''/'') (drop 13 path)) else None)"
    using extract_model_name_takeWhile [of s] by (simp only: sf)
  show "join ''/'' (split_sep path ''/'') = path"
    by (simp add: join_split_sep)
  show "extract_model_name s =
        (if startswith path ''tests/models/'' \<and> 3 \<le> length (split_sep path ''/'')
         then Some (split_sep path ''/'' ! 2) else None)"
    by (simp add: extract_model_name_def Let_def sf)
  {
    assume "\<not> prefix ''tests/models/'' path"
    then show "extract_model_name s = None"
      by (simp add: ex startswith_def)
  }
  {
    assume "prefix ''tests/models/'' path"
    then obtain r where r: "path = ''tests/models/'' @ r" by (auto simp: prefix_def)
    obtain p ps where ps: "split_sep r ''/'' = p # ps"
      using split_sep_nonempty [of r "''/''"] by (cases "split_sep r ''/''") auto
    have sp: "split_sep path ''/'' = ''tests'' # ''models'' # p # ps"
      unfolding r split_sep_tests_models ps ..
    show "3 \<le> length (split_sep path ''/'')" by (simp add: sp)
    show "split_sep path ''/'' ! 0 = ''tests''" by (simp add: sp)
    show "split_sep path ''/'' ! 1 = ''models''" by (simp add: sp)
  }
  {
    fix m t
    assume a: "path = ''tests/models/'' @ m @ t \<and> CHR ''/'' \<notin> set m \<and> (t = [] \<or> hd t = CHR ''/'')"
    then have path: "path = ''tests/models/'' @ (m @ t)" and m: "CHR ''/'' \<notin> set m"
      and t: "t = [] \<or> hd t = CHR ''/''" by simp_all
    have st: "startswith path ''tests/models/''"
      unfolding path startswith_def by (rule prefixI) simp
    have "drop 13 path = m @ t" unfolding path by (rule drop_tests_models)
    with ex st takeWhile_segment [OF m t] show "extract_model_name s = Some m"
      by simp
  }
next
  show "extract_model_name ''tests/models/bart/test_modeling_bart.py::TestBart::test_x'' = Some ''bart''"
    by code_simp
next
  show "extract_model_name ''tests/other/test_x.py::test_y'' = None"
    by code_simp
qed

theorem extract_model_name_third_segment_witness:
  "\<not> sublist ''::'' ''tests/models/a:'' \<and>
   split_first ''tests/models/a::b/c.py::t'' ''::'' = ''tests/models/a'' \<and>
   extract_model_name ''tests/models/a::b/c.py::t'' = Some ''a''"
proof -
  have ns: "\<not> sublist ''::'' (''tests/models/a'' @ '':'')"
    by code_simp
  have s: "''tests/models/a::b/c.py::t'' = ''tests/models/a'' @ ''::'' @ ''b/c.py::t''"
    by simp
  have cut: "''tests/models/a::b/c.py::t'' = ''tests/models/a'' \<and>
        \<not> sublist ''::'' ''tests/models/a::b/c.py::t'' \<or>
      (\<exists>rest. ''tests/models/a::b/c.py::t'' = ''tests/models/a'' @ ''::'' @ rest) \<and>
        \<not> sublist ''::'' (''tests/models/a'' @ '':'')"
    using ns s by blast
  from extract_model_name_third_segment [of "''tests/models/a::b/c.py::t''"]
  have all: "\<forall>path. (''tests/models/a::b/c.py::t'' = path \<and>
               \<not> sublist ''::'' ''tests/models/a::b/c.py::t'' \<or>
             (\<exists>rest. ''tests/models/a::b/c.py::t'' = path @ ''::'' @ rest) \<and>
               \<not> sublist ''::'' (path @ '':'')) \<longrightarrow>
      split_first ''tests/models/a::b/c.py::t'' ''::'' = path \<and>
      (\<forall>m t. path = ''tests/models/'' @ m @ t \<and> CHR ''/'' \<notin> set m \<and> (t = [] \<or> hd t = CHR ''/'') \<longrightarrow>
             extract_model_name ''tests/models/a::b/c.py::t'' = Some m)"
    by blast
  from all cut have sf: "split_first ''tests/models/a::b/c.py::t'' ''::'' = ''tests/models/a''"
    and seg: "\<forall>m t. ''tests/models/a'' = ''tests/models/'' @ m @ t \<and> CHR ''/'' \<notin> set m \<and>
                (t = [] \<or> hd t = CHR ''/'') \<longrightarrow>
             extract_model_name ''tests/models/a::b/c.py::t'' = Some m"
    by blast+
  have "''tests/models/a'' = ''tests/models/'' @ ''a'' @ [] \<and> CHR ''/'' \<notin> set ''a'' \<and>
        ([] = [] \<or> hd [] = CHR ''/'')"
    by simp
  with seg have "extract_model_name ''tests/models/a::b/c.py::t'' = Some ''a''"
    by blast
  with ns sf show ?thesis by simp
qed

section \<open>The summary pass\<close>

lemma split_ws_blank: "\<forall>c\<in>set s. isspace c \<Longrightarrow> split_ws s = []"
proof -
  have "\<forall>c\<in>set s. isspace c \<Longrightarrow> split_ws_from [] s = []"
    by (induction s) auto
  then show "\<forall>c\<in>set s. isspace c \<Longrightarrow> split_ws s = []"
    by (simp add: split_ws_def)
qed

lemma summary_line_blank_failed:
  assumes "startswith line ''FAILED ''"
    and "\<forall>c\<in>set (drop (length ''FAILED '') line). isspace c"
  shows "summary_line summary line = Inl IndexError"
proof -
  from assms(1) obtain r where "line = ''FAILED '' @ r"
    by (auto simp: startswith_def prefix_def)
  then have "\<not> startswith line ''PASSED ''"
    by (simp add: startswith_def)
  with assms split_ws_blank [OF assms(2)] show ?thesis
    by (simp add: summary_line_def)
qed

lemma summary_lines_blank_failed:
  assumes "line \<in> set ls"
    and "startswith line ''FAILED ''"
    and "\<forall>c\<in>set (drop (length ''FAILED '') line). isspace c"
  shows "summary_lines summary ls = Inl IndexError"
  using assms(1)
proof (induction ls arbitrary: summary)
  case Nil
  then show ?case by simp
next
  case (Cons x xs)
  show ?case
  proof (cases "summary_line summary x")
    case (Inl e)
    then show ?thesis by (cases e) simp
  next
    case (Inr summary')
    with summary_line_blank_failed [OF assms(2,3), of summary] have "x \<noteq> line" by auto
    with Cons.prems have "line \<in> set xs" by simp
    with Cons.IH Inr show ?thesis by simp
  qed
qed

text \<open>
  The pass over the summaries of a job raises as soon as one of them has a line made of
  the prefix \<^verbatim>\<open>FAILED \<close> followed by nothing or by white space only.
\<close>

lemma parse_summaries_blank_failed:
  assumes "node_test_summary \<in> set texts"
    and "line \<in> set (splitlines node_test_summary)"
    and "startswith line ''FAILED ''"
    and "\<forall>c\<in>set (drop (length ''FAILED '') line). isspace c"
  shows "parse_summaries summary texts = Inl IndexError"
  using assms(1)
proof (induction texts arbitrary: summary)
  case Nil
  then show ?case by simp
next
  case (Cons t ts)
  show ?case
  proof (cases "summary_lines summary (splitlines t)")
    case (Inl e)
    then show ?thesis by (cases e) simp
  next
    case (Inr summary')
    with summary_lines_blank_failed [OF assms(2,3,4), of summary] have "t \<noteq> node_test_summary"
      by auto
    with Cons.prems have "node_test_summary \<in> set ts" by simp
    with Cons.IH Inr show ?thesis by simp
  qed
qed

text \<open>
  Claim C1 says that parsing a summary never raises and that a line made of \<^verbatim>\<open>FAILED \<close> and
  nothing else is skipped. On that line the rest after the prefix has no word, so
  \<^verbatim>\<open>split()[0]\<close> raises \<^verbatim>\<open>IndexError\<close>, whatever was recorded before.
\<close>

theorem parse_summaries_blank_failed_raises:
  "parse_summaries summary [''FAILED ''] = Inl IndexError"
  by (simp add: splitlines_def is_linebreak_def summary_line_def startswith_def split_ws_def)

section \<open>Correlating summary lines with failure lines\<close>

lemma length_collect_failures:
  "length (collect_failures job fl i ls) = length (filter is_failure_line ls)"
  by (induction ls arbitrary: i) auto

lemma nth_collect_failures:
  "n < length (filter is_failure_line ls) \<Longrightarrow>
   collect_failures job fl i ls ! n =
   failure_entry_of job fl (i + n) (filter is_failure_line ls ! n)"
proof (induction ls arbitrary: i n)
  case Nil
  then show ?case by simp
next
  case (Cons l ls)
  show ?case
  proof (cases "is_failure_line l")
    case True
    show ?thesis
    proof (cases n)
      case 0
      with True show ?thesis by simp
    next
      case (Suc m)
      with True Cons.prems have "m < length (filter is_failure_line ls)" by simp
      from Cons.IH [OF this, of "i + 1"] True Suc show ?thesis by simp
    qed
  next
    case False
    with Cons show ?thesis by simp
  qed
qed

lemma collect_failures_append:
  "collect_failures job fl i (xs @ ys) =
   collect_failures job fl i xs @
   collect_failures job fl (i + length (filter is_failure_line xs)) ys"
  by (induction xs arbitrary: i) auto

lemma short_error_of_partition_sep:
  "short_error_of line =
     (case partition_sep '' - '' (strip (drop 7 line)) of None \<Rightarrow> [] | Some (b, a) \<Rightarrow> a)"
proof -
  have len: "length ''FAILED '' = 7" by simp
  show ?thesis
    unfolding short_error_of_def partition_str_def len by (simp split: option.splits)
qed

lemma error_failure_entry_of:
  "error (failure_entry_of job fl i line) = (if i < length fl then fl ! i else short_error_of line)"
  by (simp add: failure_entry_of_def Let_def)

text \<open>
  Claim C4, as the code has it. A node yields one entry for each summary line that starts
  with \<^verbatim>\<open>FAILED \<close> and does not mention a failed subprocess, in order. The entry of index
  \<open>n\<close> takes the failure line of index \<open>n\<close> of the same node; when there are not that many
  failure lines, it takes the short error: the rest of the line after the prefix is
  stripped of white space, and the short error is what follows its first \<^verbatim>\<open>" - "\<close>, or the
  empty text when it has none.
\<close>

theorem node_failures_correlation:
  assumes "n < length (filter is_failure_line (splitlines summary_text))"
  shows "length (node_failures job summary_text detail) =
           length (filter is_failure_line (splitlines summary_text)) \<and>
         error (node_failures job summary_text detail ! n) =
           (if n < length (failure_lines_list detail) then failure_lines_list detail ! n
            else case partition_sep '' - ''
                   (strip (drop 7 (filter is_failure_line (splitlines summary_text) ! n))) of
                   None \<Rightarrow> []
                 | Some (b, a) \<Rightarrow> a)"
proof
  show "length (node_failures job summary_text detail) =
          length (filter is_failure_line (splitlines summary_text))"
    by (simp add: node_failures_def length_collect_failures)
next
  have "node_failures job summary_text detail ! n =
        failure_entry_of job (failure_lines_list detail) n
          (filter is_failure_line (splitlines summary_text) ! n)"
    using nth_collect_failures [OF assms, of job "failure_lines_list detail" 0]
    by (simp add: node_failures_def)
  then show "error (node_failures job summary_text detail ! n) =
           (if n < length (failure_lines_list detail) then failure_lines_list detail ! n
            else case partition_sep '' - ''
                   (strip (drop 7 (filter is_failure_line (splitlines summary_text) ! n))) of
                   None \<Rightarrow> []
                 | Some (b, a) \<Rightarrow> a)"
    by (simp only: error_failure_entry_of short_error_of_partition_sep)
qed

theorem node_failures_correlation_witness:
  "1 < length (filter is_failure_line (splitlines ''FAILED a - x\<newline>FAILED b - y'')) \<and>
   length (node_failures ''job'' ''FAILED a - x\<newline>FAILED b - y'' (Some ''E: one'')) = 2 \<and>
   error (node_failures ''job'' ''FAILED a - x\<newline>FAILED b - y'' (Some ''E: one'') ! 1) = ''y''"
proof -
  have lines: "filter is_failure_line (splitlines ''FAILED a - x\<newline>FAILED b - y'') =
      [''FAILED a - x'', ''FAILED b - y'']"
    by code_simp
  have detail: "failure_lines_list (Some ''E: one'') = [''E: one'']"
    by code_simp
  have short: "partition_sep '' - '' (strip ''b - y'') = Some (''b'', ''y'')"
    by code_simp
  show ?thesis
    using node_failures_correlation [of 1 "''FAILED a - x\<newline>FAILED b - y''" "''job''" "Some ''E: one''"]
    by (simp add: lines detail short)
qed

text \<open>
  The short error is not always the text after the first \<^verbatim>\<open>" - "\<close> of the whole line: white
  space at the end of the line is stripped first.
\<close>

theorem fallback_differs_from_text_after_separator:
  "error (node_failures ''job'' ''FAILED a - b '' None ! 0) = ''b'' \<and>
   snd (snd (partition_str ''FAILED a - b '' '' - '')) = ''b '' \<and>
   error (node_failures ''job'' ''FAILED a - b '' None ! 0) \<noteq>
     snd (snd (partition_str ''FAILED a - b '' '' - ''))"
  by code_simp

text \<open>
  Claim C7. A summary line that starts with \<^verbatim>\<open>FAILED \<close> and contains
  \<^verbatim>\<open>" - Failed: (subprocess)"\<close> adds no entry and uses up no failure line: wherever it stands
  in a node's summary, the entries of the node are those of the summary without that line.
\<close>

theorem subprocess_line_skipped:
  assumes "splitlines summary_text = pre @ line # post"
    and "startswith line ''FAILED ''"
    and "contains line '' - Failed: (subprocess)''"
  shows "node_failures job summary_text detail =
         collect_failures job (failure_lines_list detail) 0 (pre @ post)"
  using assms by (simp add: node_failures_def collect_failures_append is_failure_line_def)

theorem subprocess_line_skipped_witness:
  "node_failures ''job''
     ''FAILED a - x\<newline>FAILED tests/x.py::test_y - Failed: (subprocess)\<newline>FAILED b - y''
     (Some ''E: one\<newline>E: two'') =
   [\<lparr>job_name = ''job'', test_name = ''a'', error = ''E: one'', model_name = None\<rparr>,
    \<lparr>job_name = ''job'', test_name = ''b'', error = ''E: two'', model_name = None\<rparr>]"
proof -
  have lines: "splitlines
      ''FAILED a - x\<newline>FAILED tests/x.py::test_y - Failed: (subprocess)\<newline>FAILED b - y'' =
      [''FAILED a - x''] @ ''FAILED tests/x.py::test_y - Failed: (subprocess)'' # [''FAILED b - y'']"
    by code_simp
  have starts: "startswith ''FAILED tests/x.py::test_y - Failed: (subprocess)'' ''FAILED ''"
    by code_simp
  have sub: "contains ''FAILED tests/x.py::test_y - Failed: (subprocess)'' '' - Failed: (subprocess)''"
    by code_simp
  have rest: "collect_failures ''job'' (failure_lines_list (Some ''E: one\<newline>E: two'')) 0
      ([''FAILED a - x''] @ [''FAILED b - y'']) =
    [\<lparr>job_name = ''job'', test_name = ''a'', error = ''E: one'', model_name = None\<rparr>,
     \<lparr>job_name = ''job'', test_name = ''b'', error = ''E: two'', model_name = None\<rparr>]"
    by code_simp
  show ?thesis
    using subprocess_line_skipped [OF lines starts sub, of "''job''" "Some ''E: one\<newline>E: two''"]
    by (simp only: rest)
qed

section \<open>Counts of the aggregated groups\<close>

lemma truthy_iff: "truthy v = (v \<noteq> None \<and> v \<noteq> Some [])"
  by (simp add: truthy_def split: option.splits)

lemma sum_count_add_failure:
  "sum_list (map (\<lambda>x. count (snd x)) (add_failure m key e)) =
   sum_list (map (\<lambda>x. count (snd x)) m) + 1"
  by (induction m key e rule: add_failure.induct) (auto simp: record_failure_def)

lemma count_finish_groups:
  "map (\<lambda>x. count (snd x)) (finish_groups m) = map (\<lambda>x. count (snd x)) m"
  by (induction m) (auto simp: finish_groups_def)

lemma sum_count_by_test:
  "sum_list (map (\<lambda>x. count (snd x)) (fst (foldl aggregate_entry st es))) =
   sum_list (map (\<lambda>x. count (snd x)) (fst st)) + length es"
  by (induction es arbitrary: st) (auto simp: aggregate_entry_def Let_def sum_count_add_failure)

lemma sum_count_by_model:
  "sum_list (map (\<lambda>x. count (snd x)) (snd (foldl aggregate_entry st es))) =
   sum_list (map (\<lambda>x. count (snd x)) (snd st)) +
   length (filter (\<lambda>e. truthy (model_name e)) es)"
  by (induction es arbitrary: st) (auto simp: aggregate_entry_def Let_def sum_count_add_failure)

text \<open>
  Claim C3, as the code has it. The counts of the groups by test add up to the number of
  entries. The counts of the groups by model add up to the number of entries whose model
  name is present and not empty: the loop tests the model name for truth, and the empty
  text is false.
\<close>

theorem aggregate_failures_count_sums:
  "sum_list (map (\<lambda>x. count (snd x)) (fst (aggregate_failures es))) = length es \<and>
   sum_list (map (\<lambda>x. count (snd x)) (snd (aggregate_failures es))) =
     length (filter (\<lambda>e. model_name e \<noteq> None \<and> model_name e \<noteq> Some []) es)"
  by (simp add: aggregate_failures_def Let_def count_finish_groups sum_count_by_test
      sum_count_by_model truthy_iff)

text \<open>
  An entry whose model name is the empty text has a model name, and no group by model
  counts it.
\<close>

theorem empty_model_name_not_counted:
  "model_name \<lparr>job_name = ''job'', test_name = ''tests/models//test_x.py::test_y'',
      error = ''boom'', model_name = Some ''''\<rparr> \<noteq> None \<and>
   sum_list (map (count \<circ> snd) (snd (aggregate_failures
     [\<lparr>job_name = ''job'', test_name = ''tests/models//test_x.py::test_y'',
       error = ''boom'', model_name = Some ''''\<rparr>]))) = 0"
  by (simp add: aggregate_failures_def aggregate_entry_def truthy_def finish_groups_def)

section \<open>Sorting by decreasing key\<close>

lemma sorted_reverse_descending:
  "sorted_wrt (\<lambda>a b. key b \<le> key a) (sorted_reverse key xs)"
proof -
  have "sorted (map key (sort_key key (rev xs)))" by simp
  then have "sorted_wrt (\<lambda>a b. key a \<le> key b) (sort_key key (rev xs))"
    by (simp add: sorted_wrt_map)
  then show ?thesis by (simp add: sorted_reverse_def sorted_wrt_rev)
qed

lemma sorted_reverse_stable:
  "filter (\<lambda>x. key x = c) (sorted_reverse key xs) = filter (\<lambda>x. key x = c) xs"
proof -
  have "filter (\<lambda>x. key x = c) (rev (sort_key key (rev xs))) =
        rev (filter (\<lambda>x. key x = c) (sort_key key (rev xs)))"
    by (simp add: rev_filter)
  also have "\<dots> = rev (filter (\<lambda>x. key x = c) (rev xs))"
    by (simp only: sort_key_stable)
  also have "\<dots> = filter (\<lambda>x. key x = c) xs"
    by (simp add: rev_filter)
  finally show ?thesis by (simp add: sorted_reverse_def)
qed

lemma set_sorted_reverse: "set (sorted_reverse key xs) = set xs"
  by (simp add: sorted_reverse_def)

section \<open>The report and the emptiness of the groups by test\<close>

lemma add_failure_nonempty: "add_failure m key e \<noteq> []"
  by (induction m key e rule: add_failure.induct) auto

lemma by_test_nonempty: "es \<noteq> [] \<Longrightarrow> fst (foldl aggregate_entry st es) \<noteq> []"
proof (induction es rule: rev_induct)
  case Nil
  then show ?case by simp
next
  case (snoc e es)
  show ?case by (simp add: aggregate_entry_def Let_def add_failure_nonempty)
qed

lemma finish_groups_empty: "(finish_groups m = []) = (m = [])"
  by (simp add: finish_groups_def)

lemma by_test_empty_iff: "(fst (aggregate_failures es) = []) = (es = [])"
  by (cases "es = []") (auto simp: aggregate_failures_def Let_def finish_groups_empty by_test_nonempty)

lemma by_model_of_no_entries: "snd (aggregate_failures []) = []"
  by (simp add: aggregate_failures_def finish_groups_def)

lemma report_lines_by_test:
  "bt \<noteq> [] \<Longrightarrow>
   create_markdown_report bt bm =
     ''# Failure summary\<newline>\<newline>## By test\<newline>\<newline>'' @
     join [CHR 0x0A] (tl (table_lines ''By test'' ''Test'' bt) @ [[]] @
                      table_lines ''By model'' ''Model'' bm)"
  by (simp add: create_markdown_report_def table_lines_def join_Cons)

lemma report_no_failures_iff:
  "(create_markdown_report bt bm = ''# Failure summary\<newline>\<newline>No failures were reported.\<newline>'') =
   (bt = [])"
proof (cases "bt = []")
  case True
  then show ?thesis by (simp add: create_markdown_report_def)
next
  case False
  then show ?thesis by (simp add: report_lines_by_test)
qed

lemma join_concat: "join sep (x # xs) = x @ concat (map (\<lambda>r. sep @ r) xs)"
proof (induction xs arbitrary: x)
  case Nil
  show ?case by simp
next
  case (Cons q ps)
  from Cons [of q] show ?case by simp
qed

lemma length_sorted_reverse: "length (sorted_reverse key xs) = length xs"
  by (simp add: sorted_reverse_def)

lemma report_tables:
  "bt \<noteq> [] \<Longrightarrow>
   create_markdown_report bt bm =
     ''# Failure summary\<newline>\<newline>## By test\<newline>\<newline>| Test | Failures | Error(s) |\<newline>| --- | --- | --- |'' @
     concat (map (\<lambda>(name, info).
                    ''\<newline>| '' @ name @ '' | '' @ str_nat (count info) @ '' | '' @
                    format_errors (errors info) @ '' |'')
              (sorted_reverse (\<lambda>x. count (snd x)) bt)) @
     ''\<newline>\<newline>## By model\<newline>\<newline>| Model | Failures | Error(s) |\<newline>| --- | --- | --- |'' @
     concat (map (\<lambda>(name, info).
                    ''\<newline>| '' @ name @ '' | '' @ str_nat (count info) @ '' | '' @
                    format_errors (errors info) @ '' |'')
              (sorted_reverse (\<lambda>x. count (snd x)) bm))"
  by (simp add: create_markdown_report_def table_lines_def join_concat comp_def split_def)


lemma singleton_list: "length xs = 1 \<Longrightarrow> set xs = {a} \<Longrightarrow> xs = [a]"
  by (cases xs) auto

text \<open>
  Claim C2, as the code has it. The report is the heading and the sentence
  \<^verbatim>\<open>No failures were reported.\<close>, with no table, exactly when the mapping by test is
  empty. Otherwise it is, in this order: the heading; the title \<^verbatim>\<open>By test\<close> and the two
  header lines of its table; one row for each group by test, the groups taken by
  decreasing count and otherwise in their order in the mapping; an empty line; the title
  \<^verbatim>\<open>By model\<close> and the two header lines of its table; one row for each group by model, in
  the same arrangement. This holds whatever the mapping by model holds.
\<close>

theorem report_no_failures_iff_by_test_empty:
  "(create_markdown_report bt bm =
      ''# Failure summary\<newline>\<newline>No failures were reported.\<newline>'') = (bt = []) \<and>
   create_markdown_report bt bm =
     (if bt = [] then ''# Failure summary\<newline>\<newline>No failures were reported.\<newline>''
      else join ''\<newline>''
             ([''# Failure summary\<newline>''] @ table_lines ''By test'' ''Test'' bt @ [[]] @
              table_lines ''By model'' ''Model'' bm)) \<and>
   (bt \<noteq> [] \<longrightarrow>
     (\<exists>gt gm.
        set gt = set bt \<and> length gt = length bt \<and>
        sorted_wrt (\<lambda>a b. count (snd b) \<le> count (snd a)) gt \<and>
        (\<forall>c. filter (\<lambda>x. count (snd x) = c) gt = filter (\<lambda>x. count (snd x) = c) bt) \<and>
        set gm = set bm \<and> length gm = length bm \<and>
        sorted_wrt (\<lambda>a b. count (snd b) \<le> count (snd a)) gm \<and>
        (\<forall>c. filter (\<lambda>x. count (snd x) = c) gm = filter (\<lambda>x. count (snd x) = c) bm) \<and>
        create_markdown_report bt bm =
          ''# Failure summary\<newline>\<newline>## By test\<newline>\<newline>| Test | Failures | Error(s) |\<newline>| --- | --- | --- |'' @
          concat (map (\<lambda>(name, info).
                         ''\<newline>| '' @ name @ '' | '' @ str_nat (count info) @ '' | '' @
                         format_errors (errors info) @ '' |'') gt) @
          ''\<newline>\<newline>## By model\<newline>\<newline>| Model | Failures | Error(s) |\<newline>| --- | --- | --- |'' @
          concat (map (\<lambda>(name, info).
                         ''\<newline>| '' @ name @ '' | '' @ str_nat (count info) @ '' | '' @
                         format_errors (errors info) @ '' |'') gm)))"
proof (intro conjI impI)
  show "(create_markdown_report bt bm =
      ''# Failure summary\<newline>\<newline>No failures were reported.\<newline>'') = (bt = [])"
    by (rule report_no_failures_iff)
next
  show "create_markdown_report bt bm =
     (if bt = [] then ''# Failure summary\<newline>\<newline>No failures were reported.\<newline>''
      else join ''\<newline>''
             ([''# Failure summary\<newline>''] @ table_lines ''By test'' ''Test'' bt @ [[]] @
              table_lines ''By model'' ''Model'' bm))"
    by (simp add: create_markdown_report_def)
next
  assume bt: "bt \<noteq> []"
  let ?key = "\<lambda>x :: string \<times> agg_group. count (snd x)"
  let ?gt = "sorted_reverse ?key bt"
  let ?gm = "sorted_reverse ?key bm"
  have "set ?gt = set bt" and "length ?gt = length bt"
    and "sorted_wrt (\<lambda>a b. count (snd b) \<le> count (snd a)) ?gt"
    and "\<forall>c. filter (\<lambda>x. count (snd x) = c) ?gt = filter (\<lambda>x. count (snd x) = c) bt"
    and "set ?gm = set bm" and "length ?gm = length bm"
    and "sorted_wrt (\<lambda>a b. count (snd b) \<le> count (snd a)) ?gm"
    and "\<forall>c. filter (\<lambda>x. count (snd x) = c) ?gm = filter (\<lambda>x. count (snd x) = c) bm"
    by (simp_all add: set_sorted_reverse length_sorted_reverse sorted_reverse_descending
        sorted_reverse_stable)
  with report_tables [OF bt, of bm]
  show "\<exists>gt gm.
        set gt = set bt \<and> length gt = length bt \<and>
        sorted_wrt (\<lambda>a b. count (snd b) \<le> count (snd a)) gt \<and>
        (\<forall>c. filter (\<lambda>x. count (snd x) = c) gt = filter (\<lambda>x. count (snd x) = c) bt) \<and>
        set gm = set bm \<and> length gm = length bm \<and>
        sorted_wrt (\<lambda>a b. count (snd b) \<le> count (snd a)) gm \<and>
        (\<forall>c. filter (\<lambda>x. count (snd x) = c) gm = filter (\<lambda>x. count (snd x) = c) bm) \<and>
        create_markdown_report bt bm =
          ''# Failure summary\<newline>\<newline>## By test\<newline>\<newline>| Test | Failures | Error(s) |\<newline>| --- | --- | --- |'' @
          concat (map (\<lambda>(name, info).
                         ''\<newline>| '' @ name @ '' | '' @ str_nat (count info) @ '' | '' @
                         format_errors (errors info) @ '' |'') gt) @
          ''\<newline>\<newline>## By model\<newline>\<newline>| Model | Failures | Error(s) |\<newline>| --- | --- | --- |'' @
          concat (map (\<lambda>(name, info).
                         ''\<newline>| '' @ name @ '' | '' @ str_nat (count info) @ '' | '' @
                         format_errors (errors info) @ '' |'') gm)"
    by blast
qed

theorem report_no_failures_iff_by_test_empty_witness:
  "[(''t'', \<lparr>count = 12, errors = [(''boom'', 10), (''bang'', 2)]\<rparr>)] \<noteq> [] \<and>
   create_markdown_report
     [(''t'', \<lparr>count = 12, errors = [(''boom'', 10), (''bang'', 2)]\<rparr>)]
     [(''bart'', \<lparr>count = 12, errors = [(''boom'', 10), (''bang'', 2)]\<rparr>)] =
   ''# Failure summary\<newline>\<newline>## By test\<newline>\<newline>| Test | Failures | Error(s) |\<newline>| --- | --- | --- |'' @
   ''\<newline>| t | 12 | 10'' @ [CHR 0xD7] @ '' boom; 2'' @ [CHR 0xD7] @ '' bang |'' @
   ''\<newline>\<newline>## By model\<newline>\<newline>| Model | Failures | Error(s) |\<newline>| --- | --- | --- |'' @
   ''\<newline>| bart | 12 | 10'' @ [CHR 0xD7] @ '' boom; 2'' @ [CHR 0xD7] @ '' bang |''"
proof -
  let ?G = "\<lparr>count = 12, errors = [(''boom'', 10), (''bang'', 2)]\<rparr>"
  let ?bt = "[(''t'', ?G)]"
  let ?bm = "[(''bart'', ?G)]"
  have ne: "?bt \<noteq> []" by simp
  have n: "str_nat 12 = ''12''"
    by code_simp
  have f: "format_errors [(''boom'', 10), (''bang'', 2)] =
      ''10'' @ [CHR 0xD7] @ '' boom; 2'' @ [CHR 0xD7] @ '' bang''"
    by code_simp
  from report_no_failures_iff_by_test_empty [of ?bt ?bm] ne
  obtain gt gm where gt: "set gt = set ?bt" "length gt = length ?bt"
    and gm: "set gm = set ?bm" "length gm = length ?bm"
    and rep: "create_markdown_report ?bt ?bm =
          ''# Failure summary\<newline>\<newline>## By test\<newline>\<newline>| Test | Failures | Error(s) |\<newline>| --- | --- | --- |'' @
          concat (map (\<lambda>(name, info).
                         ''\<newline>| '' @ name @ '' | '' @ str_nat (count info) @ '' | '' @
                         format_errors (errors info) @ '' |'') gt) @
          ''\<newline>\<newline>## By model\<newline>\<newline>| Model | Failures | Error(s) |\<newline>| --- | --- | --- |'' @
          concat (map (\<lambda>(name, info).
                         ''\<newline>| '' @ name @ '' | '' @ str_nat (count info) @ '' | '' @
                         format_errors (errors info) @ '' |'') gm)"
    by blast
  from gt have gt': "gt = ?bt" by (intro singleton_list) simp_all
  from gm have gm': "gm = ?bm" by (intro singleton_list) simp_all
  from rep show ?thesis unfolding gt' gm' by (simp add: n f)
qed

text \<open>
  With no group by test and one group by model, the report has no table by model.
\<close>

theorem report_without_by_test_has_no_by_model_table:
  "create_markdown_report [] [(''bart'', \<lparr>count = 1, errors = [(''boom'', 1)]\<rparr>)] =
     ''# Failure summary\<newline>\<newline>No failures were reported.\<newline>''"
  by (simp add: create_markdown_report_def)

text \<open>
  Claim C10. When the aggregator returns a group by model it returns a group by test; on
  its results the mapping by test is empty exactly when both mappings are, and the report
  says that there are no failures exactly when both are empty.
\<close>

theorem by_model_nonempty_implies_by_test_nonempty:
  "(snd (aggregate_failures es) \<noteq> [] \<longrightarrow> fst (aggregate_failures es) \<noteq> []) \<and>
   (fst (aggregate_failures es) = []) =
     (fst (aggregate_failures es) = [] \<and> snd (aggregate_failures es) = []) \<and>
   (create_markdown_report (fst (aggregate_failures es)) (snd (aggregate_failures es)) =
      ''# Failure summary\<newline>\<newline>No failures were reported.\<newline>'') =
     (fst (aggregate_failures es) = [] \<and> snd (aggregate_failures es) = [])"
proof -
  have both: "snd (aggregate_failures es) = []" if "fst (aggregate_failures es) = []"
  proof -
    from that have "es = []" by (simp add: by_test_empty_iff)
    then show ?thesis by (simp add: by_model_of_no_entries)
  qed
  then show ?thesis by (auto simp: report_no_failures_iff)
qed

theorem by_model_nonempty_implies_by_test_nonempty_witness:
  "snd (aggregate_failures
     [\<lparr>job_name = ''job'', test_name = ''tests/models/bart/test_x.py::test_y'',
       error = ''boom'', model_name = Some ''bart''\<rparr>]) \<noteq> [] \<and>
   fst (aggregate_failures
     [\<lparr>job_name = ''job'', test_name = ''tests/models/bart/test_x.py::test_y'',
       error = ''boom'', model_name = Some ''bart''\<rparr>]) \<noteq> []"
proof -
  have "snd (aggregate_failures
     [\<lparr>job_name = ''job'', test_name = ''tests/models/bart/test_x.py::test_y'',
       error = ''boom'', model_name = Some ''bart''\<rparr>]) \<noteq> []"
    by (simp add: aggregate_failures_def aggregate_entry_def truthy_def finish_groups_def)
  with by_model_nonempty_implies_by_test_nonempty
    [of "[\<lparr>job_name = ''job'', test_name = ''tests/models/bart/test_x.py::test_y'',
       error = ''boom'', model_name = Some ''bart''\<rparr>]"]
  show ?thesis by blast
qed

section \<open>The groups and the order of their errors\<close>

lemma keys_counter_incr:
  "map fst (counter_incr c e) = (if e \<in> fst ` set c then map fst c else map fst c @ [e])"
  by (induction c e rule: counter_incr.induct) auto

lemma map_of_counter_incr:
  "map_of (counter_incr c e) m =
     (if m = e then Some (case map_of c e of None \<Rightarrow> 1 | Some n \<Rightarrow> n + 1) else map_of c m)"
  by (induction c e rule: counter_incr.induct) auto

lemma keys_tally_set: "set (map fst (foldl counter_incr [] msgs)) = set msgs"
  by (induction msgs rule: rev_induct) (auto simp: keys_counter_incr)

lemma keys_tally_distinct: "distinct (map fst (foldl counter_incr [] msgs))"
proof (induction msgs rule: rev_induct)
  case Nil
  show ?case by simp
next
  case (snoc x xs)
  then show ?case by (auto simp: keys_counter_incr)
qed

lemma map_of_tally:
  "map_of (foldl counter_incr [] msgs) m =
     (if m \<in> set msgs then Some (count_list msgs m) else None)"
proof (induction msgs rule: rev_induct)
  case Nil
  show ?case by simp
next
  case (snoc x xs)
  then show ?case by (auto simp: map_of_counter_incr)
qed

lemma keys_tally_order:
  "map fst (foldl counter_incr [] msgs) = A @ m1 # B @ m2 # C \<Longrightarrow>
   \<exists>us vs. msgs = us @ m1 # vs \<and> m2 \<notin> set us"
proof (induction msgs arbitrary: C rule: rev_induct)
  case Nil
  then show ?case by simp
next
  case (snoc x xs)
  let ?K = "map fst (foldl counter_incr [] xs)"
  show ?case
  proof (cases "x \<in> set xs")
    case True
    then have "x \<in> fst ` set (foldl counter_incr [] xs)"
      using keys_tally_set [of xs] by simp
    with snoc.prems have "?K = A @ m1 # B @ m2 # C" by (simp add: keys_counter_incr)
    from snoc.IH [OF this] obtain us vs where "xs = us @ m1 # vs" and "m2 \<notin> set us" by auto
    then have "xs @ [x] = us @ m1 # (vs @ [x])" and "m2 \<notin> set us" by simp_all
    then show ?thesis by blast
  next
    case False
    then have "x \<notin> fst ` set (foldl counter_incr [] xs)"
      using keys_tally_set [of xs] by simp
    with snoc.prems have eq: "?K @ [x] = A @ m1 # B @ m2 # C" by (simp add: keys_counter_incr)
    show ?thesis
    proof (cases C rule: rev_cases)
      case Nil
      with eq have "?K @ [x] = (A @ m1 # B) @ [m2]" by simp
      then have K: "?K = A @ m1 # B" and x: "x = m2" by simp_all
      from K have "m1 \<in> set ?K" by simp
      then have "m1 \<in> set xs" using keys_tally_set [of xs] by simp
      then obtain us vs where "xs = us @ m1 # vs" by (auto dest: split_list)
      moreover from this False x have "m2 \<notin> set us" by auto
      ultimately have "xs @ [x] = us @ m1 # (vs @ [x]) \<and> m2 \<notin> set us" by simp
      then show ?thesis by blast
    next
      case (snoc C' y)
      with eq have "?K @ [x] = (A @ m1 # B @ m2 # C') @ [y]" by simp
      then have "?K = A @ m1 # B @ m2 # C'" by simp
      from snoc.IH [OF this] obtain us vs where "xs = us @ m1 # vs" and "m2 \<notin> set us" by auto
      then have "xs @ [x] = us @ m1 # (vs @ [x])" and "m2 \<notin> set us" by simp_all
      then show ?thesis by blast
    qed
  qed
qed

lemma filter_eq_appendD:
  "filter P xs = ys @ zs \<Longrightarrow> \<exists>us vs. xs = us @ vs \<and> filter P us = ys \<and> filter P vs = zs"
proof (induction ys arbitrary: xs)
  case Nil
  then have "xs = [] @ xs \<and> filter P [] = [] \<and> filter P xs = zs" by simp
  then show ?case by blast
next
  case (Cons y ys)
  then have "filter P xs = y # (ys @ zs)" by simp
  then obtain us0 vs0 where xs: "xs = us0 @ y # vs0" and no: "\<forall>u\<in>set us0. \<not> P u"
    and y: "P y" and rest: "ys @ zs = filter P vs0"
    by (auto dest: filter_eq_ConsD)
  from Cons.IH [OF rest [symmetric]] obtain us1 vs1
    where "vs0 = us1 @ vs1" and "filter P us1 = ys" and "filter P vs1 = zs" by auto
  with xs no y have "xs = (us0 @ y # us1) @ vs1 \<and> filter P (us0 @ y # us1) = y # ys \<and>
      filter P vs1 = zs"
    by simp
  then show ?case by blast
qed

lemma filter_eq_midD:
  assumes "filter P xs = X @ a # R"
  shows "\<exists>A T. xs = A @ a # T \<and> filter P T = R"
proof -
  from filter_eq_appendD [OF assms] obtain us vs
    where xs: "xs = us @ vs" and "filter P vs = a # R" by auto
  then obtain us' vs' where "vs = us' @ a # vs'" and "R = filter P vs'"
    by (auto dest: filter_eq_ConsD)
  with xs have "xs = (us @ us') @ a # vs' \<and> filter P vs' = R" by simp
  then show ?thesis by blast
qed

lemma filter_eq_two:
  assumes "filter P xs = X @ a # Y @ b # Z"
  shows "\<exists>A B C. xs = A @ a # B @ b # C"
proof -
  from filter_eq_midD [OF assms] obtain A T
    where xs: "xs = A @ a # T" and "filter P T = Y @ b # Z" by auto
  from filter_eq_midD [OF this(2)] obtain B C where "T = B @ b # C" by auto
  with xs show ?thesis by blast
qed

lemma most_common_ties:
  assumes "most_common (foldl counter_incr [] msgs) = xs @ (m1, c) # ys @ (m2, c) # zs"
  shows "\<exists>us vs. msgs = us @ m1 # vs \<and> m2 \<notin> set us"
proof -
  let ?T = "foldl counter_incr [] msgs"
  let ?P = "\<lambda>p :: string \<times> nat. snd p = c"
  have "filter ?P ?T = filter ?P (most_common ?T)"
    by (simp add: most_common_def sorted_reverse_stable)
  also have "\<dots> = filter ?P xs @ (m1, c) # filter ?P ys @ (m2, c) # filter ?P zs"
    by (simp add: assms)
  finally have "filter ?P ?T =
      filter ?P xs @ (m1, c) # filter ?P ys @ (m2, c) # filter ?P zs" .
  from filter_eq_two [OF this] obtain A B C where "?T = A @ (m1, c) # B @ (m2, c) # C"
    by blast
  then have "map fst ?T = map fst A @ m1 # map fst B @ m2 # map fst C" by simp
  then show ?thesis by (rule keys_tally_order)
qed

lemma most_common_descending:
  "sorted_wrt (\<lambda>a b. snd b \<le> snd a) (most_common c)"
  by (simp add: most_common_def sorted_reverse_descending)

lemma most_common_counts:
  assumes "(m, n) \<in> set (most_common (foldl counter_incr [] msgs))"
  shows "n = count_list msgs m \<and> m \<in> set msgs"
proof -
  from assms have "(m, n) \<in> set (foldl counter_incr [] msgs)"
    by (simp add: most_common_def set_sorted_reverse)
  then have "map_of (foldl counter_incr [] msgs) m = Some n"
    by (simp add: keys_tally_distinct)
  then show ?thesis by (simp add: map_of_tally split: if_splits)
qed

lemma map_of_add_failure:
  "map_of (add_failure m key e) k =
     (if k = key
      then Some (record_failure
                   (case map_of m key of None \<Rightarrow> \<lparr>count = 0, errors = []\<rparr> | Some g \<Rightarrow> g) e)
      else map_of m k)"
  by (induction m key e rule: add_failure.induct) auto

lemma keys_add_failure:
  "map fst (add_failure m key e) =
     (if key \<in> fst ` set m then map fst m else map fst m @ [key])"
  by (induction m key e rule: add_failure.induct) auto

lemma groups_distinct:
  "distinct (map fst (foldl (\<lambda>m p. add_failure m (fst p) (snd p)) [] ps))"
proof (induction ps rule: rev_induct)
  case Nil
  show ?case by simp
next
  case (snoc p ps)
  then show ?case by (auto simp: keys_add_failure)
qed

lemma map_of_groups:
  "map_of (foldl (\<lambda>m p. add_failure m (fst p) (snd p)) [] ps) k =
     (if k \<in> fst ` set ps
      then Some \<lparr>count = length (filter (\<lambda>p. fst p = k) ps),
                 errors = foldl counter_incr [] (map snd (filter (\<lambda>p. fst p = k) ps))\<rparr>
      else None)"
proof (induction ps rule: rev_induct)
  case Nil
  show ?case by simp
next
  case (snoc p ps)
  show ?case
  proof (cases "k = fst p")
    case True
    have "filter (\<lambda>q. fst q = fst p) ps = []" if "fst p \<notin> fst ` set ps"
      using that by (induction ps) auto
    with True snoc show ?thesis
      by (auto simp: map_of_add_failure record_failure_def)
  next
    case False
    with snoc show ?thesis by (auto simp: map_of_add_failure)
  qed
qed

lemma by_test_groups:
  "fst (foldl aggregate_entry st es) =
   foldl (\<lambda>m p. add_failure m (fst p) (snd p)) (fst st)
     (map (\<lambda>e. (normalize_test_name (test_name e), error e)) es)"
  by (induction es arbitrary: st) (simp_all add: aggregate_entry_def Let_def)

lemma by_model_groups:
  "snd (foldl aggregate_entry st es) =
   foldl (\<lambda>m p. add_failure m (fst p) (snd p)) (snd st)
     (map (\<lambda>e. (the (model_name e), error e)) (filter (\<lambda>e. truthy (model_name e)) es))"
  by (induction es arbitrary: st) (simp_all add: aggregate_entry_def Let_def)

lemma set_finish_groups:
  "((k, g) \<in> set (finish_groups m)) =
   (\<exists>g0. (k, g0) \<in> set m \<and> g = g0\<lparr>errors := most_common (errors g0)\<rparr>)"
  by (auto simp: finish_groups_def)

lemma by_test_group:
  assumes "(k, g) \<in> set (fst (aggregate_failures es))"
  shows "g = \<lparr>count = length (filter (\<lambda>e. normalize_test_name (test_name e) = k) es),
              errors = most_common (foldl counter_incr []
                (map error (filter (\<lambda>e. normalize_test_name (test_name e) = k) es)))\<rparr>"
proof -
  let ?ps = "map (\<lambda>e. (normalize_test_name (test_name e), error e)) es"
  let ?G = "foldl (\<lambda>m p. add_failure m (fst p) (snd p)) [] ?ps"
  have sel: "map snd (filter (\<lambda>p. fst p = k) ?ps) =
             map error (filter (\<lambda>e. normalize_test_name (test_name e) = k) es)"
    by (induction es) auto
  from assms have "(k, g) \<in> set (finish_groups ?G)"
    by (simp add: aggregate_failures_def Let_def by_test_groups)
  then obtain g0 where g0: "(k, g0) \<in> set ?G" and g: "g = g0\<lparr>errors := most_common (errors g0)\<rparr>"
    by (auto simp: set_finish_groups)
  from g0 have "map_of ?G k = Some g0" by (simp add: groups_distinct)
  then have "g0 = \<lparr>count = length (filter (\<lambda>p. fst p = k) ?ps),
                    errors = foldl counter_incr [] (map snd (filter (\<lambda>p. fst p = k) ?ps))\<rparr>"
    by (auto simp: map_of_groups split: if_splits)
  moreover have "length (filter (\<lambda>p. fst p = k) ?ps) =
                 length (filter (\<lambda>e. normalize_test_name (test_name e) = k) es)"
  proof -
    have "length (filter (\<lambda>p. fst p = k) ?ps) = length (map snd (filter (\<lambda>p. fst p = k) ?ps))"
      by simp
    also have "\<dots> = length (map error (filter (\<lambda>e. normalize_test_name (test_name e) = k) es))"
      by (simp only: sel)
    finally show ?thesis by simp
  qed
  ultimately show ?thesis using g sel by simp
qed

lemma truthy_the: "(truthy v \<and> the v = k) = (v = Some k \<and> k \<noteq> [])"
  by (cases v) (auto simp: truthy_def)

lemma by_model_pairs:
  "map snd (filter (\<lambda>p. fst p = k)
     (map (\<lambda>e. (the (model_name e), error e)) (filter (\<lambda>e. truthy (model_name e)) es))) =
   (if k = [] then [] else map error (filter (\<lambda>e. model_name e = Some k) es))"
proof (induction es)
  case Nil
  show ?case by simp
next
  case (Cons e es)
  from truthy_the [of "model_name e" k] Cons show ?case by auto
qed

lemma by_model_keys:
  "(k \<in> fst ` set (map (\<lambda>e. (the (model_name e), error e))
                     (filter (\<lambda>e. truthy (model_name e)) es))) =
   (k \<noteq> [] \<and> (\<exists>e\<in>set es. model_name e = Some k))"
proof (induction es)
  case Nil
  show ?case by simp
next
  case (Cons e es)
  from truthy_the [of "model_name e" k] Cons show ?case
    by (cases "truthy (model_name e)") auto
qed

lemma length_by_model_pairs:
  "length (filter (\<lambda>p. fst p = k)
     (map (\<lambda>e. (the (model_name e), error e)) (filter (\<lambda>e. truthy (model_name e)) es))) =
   (if k = [] then 0 else length (filter (\<lambda>e. model_name e = Some k) es))"
proof -
  let ?X = "filter (\<lambda>p. fst p = k)
     (map (\<lambda>e. (the (model_name e), error e)) (filter (\<lambda>e. truthy (model_name e)) es))"
  have "length ?X = length (map snd ?X)" by simp
  also have "\<dots> = length (if k = [] then []
                          else map error (filter (\<lambda>e. model_name e = Some k) es))"
    by (simp only: by_model_pairs)
  finally show ?thesis by simp
qed

lemma map_of_by_model:
  "map_of (snd (foldl aggregate_entry ([], []) es)) k =
     (if k \<noteq> [] \<and> (\<exists>e\<in>set es. model_name e = Some k)
      then Some \<lparr>count = length (filter (\<lambda>e. model_name e = Some k) es),
                 errors = foldl counter_incr []
                   (map error (filter (\<lambda>e. model_name e = Some k) es))\<rparr>
      else None)"
  by (simp only: by_model_groups snd_conv map_of_groups by_model_keys by_model_pairs
      length_by_model_pairs) simp

lemma by_model_group:
  assumes "(k, g) \<in> set (snd (aggregate_failures es))"
  shows "k \<noteq> [] \<and>
         g = \<lparr>count = length (filter (\<lambda>e. model_name e = Some k) es),
              errors = most_common (foldl counter_incr []
                (map error (filter (\<lambda>e. model_name e = Some k) es)))\<rparr>"
proof -
  let ?G = "snd (foldl aggregate_entry ([], []) es)"
  from assms have "(k, g) \<in> set (finish_groups ?G)"
    by (simp add: aggregate_failures_def Let_def)
  then obtain g0 where g0: "(k, g0) \<in> set ?G" and g: "g = g0\<lparr>errors := most_common (errors g0)\<rparr>"
    by (auto simp: set_finish_groups)
  have "distinct (map fst ?G)" by (simp only: by_model_groups snd_conv groups_distinct)
  with g0 have "map_of ?G k = Some g0" by simp
  with g show ?thesis by (auto simp: map_of_by_model split: if_splits)
qed

text \<open>
  Claim C8. Take a group of the result, by test or by model, and the messages of the
  entries of that group in the order of the entries. The errors of the group are sorted
  by decreasing count; they list exactly those messages, each with the number of its
  occurrences; and of two messages with the same count, the one listed first is the one
  whose first occurrence comes first.
\<close>

theorem errors_ordered_by_count:
  assumes "(k, g) \<in> set (fst (aggregate_failures es)) \<and>
             msgs = map error (filter (\<lambda>e. normalize_test_name (test_name e) = k) es) \<or>
           (k, g) \<in> set (snd (aggregate_failures es)) \<and>
             msgs = map error (filter (\<lambda>e. model_name e = Some k) es)"
  shows "sorted_wrt (\<lambda>a b. snd b \<le> snd a) (errors g) \<and>
         fst ` set (errors g) = set msgs \<and>
         (\<forall>(m, n) \<in> set (errors g). n = count_list msgs m) \<and>
         (\<forall>xs m1 ys m2 zs c.
            errors g = xs @ (m1, c) # ys @ (m2, c) # zs \<longrightarrow>
            (\<exists>us vs. msgs = us @ m1 # vs \<and> m2 \<notin> set us))"
proof -
  from assms have eq: "errors g = most_common (foldl counter_incr [] msgs)"
  proof
    assume "(k, g) \<in> set (fst (aggregate_failures es)) \<and>
            msgs = map error (filter (\<lambda>e. normalize_test_name (test_name e) = k) es)"
    then show ?thesis using by_test_group [of k g es] by simp
  next
    assume "(k, g) \<in> set (snd (aggregate_failures es)) \<and>
            msgs = map error (filter (\<lambda>e. model_name e = Some k) es)"
    then show ?thesis using by_model_group [of k g es] by simp
  qed
  have "sorted_wrt (\<lambda>a b. snd b \<le> snd a) (errors g)"
    by (simp only: eq most_common_descending)
  moreover have "fst ` set (errors g) = set msgs"
    using keys_tally_set [of msgs] by (simp add: eq most_common_def set_sorted_reverse)
  moreover have "\<forall>(m, n) \<in> set (errors g). n = count_list msgs m"
    using most_common_counts [of _ _ msgs] by (auto simp: eq)
  moreover have "\<forall>xs m1 ys m2 zs c.
            errors g = xs @ (m1, c) # ys @ (m2, c) # zs \<longrightarrow>
            (\<exists>us vs. msgs = us @ m1 # vs \<and> m2 \<notin> set us)"
    using most_common_ties [of msgs] by (simp only: eq) blast
  ultimately show ?thesis by blast
qed


theorem errors_ordered_by_count_witness:
  "(''t'', \<lparr>count = 4, errors = [(''c'', 2), (''b'', 1), (''a'', 1)]\<rparr>) \<in>
     set (fst (aggregate_failures
       [\<lparr>job_name = ''job'', test_name = ''t'', error = ''b'', model_name = None\<rparr>,
        \<lparr>job_name = ''job'', test_name = ''t'', error = ''a'', model_name = None\<rparr>,
        \<lparr>job_name = ''job'', test_name = ''t'', error = ''c'', model_name = None\<rparr>,
        \<lparr>job_name = ''job'', test_name = ''t'', error = ''c'', model_name = None\<rparr>])) \<and>
   sorted_wrt (\<lambda>a b. snd b \<le> snd a) [(''c'', 2 :: nat), (''b'', 1), (''a'', 1)] \<and>
   (\<exists>us vs. [''b'', ''a'', ''c'', ''c''] = us @ ''b'' # vs \<and> ''a'' \<notin> set us)"
proof -
  let ?E = "[\<lparr>job_name = ''job'', test_name = ''t'', error = ''b'', model_name = None\<rparr>,
        \<lparr>job_name = ''job'', test_name = ''t'', error = ''a'', model_name = None\<rparr>,
        \<lparr>job_name = ''job'', test_name = ''t'', error = ''c'', model_name = None\<rparr>,
        \<lparr>job_name = ''job'', test_name = ''t'', error = ''c'', model_name = None\<rparr>]"
  let ?G = "\<lparr>count = 4, errors = [(''c'', 2), (''b'', 1), (''a'', 1)]\<rparr>"
  have norm: "normalize_test_name ''t'' = ''t''"
    by code_simp
  have agg: "fst (aggregate_failures ?E) = [(''t'', ?G)]"
    by (simp add: aggregate_failures_def aggregate_entry_def norm truthy_def finish_groups_def
        record_failure_def most_common_def sorted_reverse_def)
  have msgs: "map error (filter (\<lambda>e. normalize_test_name (test_name e) = ''t'') ?E) =
      [''b'', ''a'', ''c'', ''c'']"
    by (simp add: norm)
  have hyp: "(''t'', ?G) \<in> set (fst (aggregate_failures ?E)) \<and>
             [''b'', ''a'', ''c'', ''c''] =
               map error (filter (\<lambda>e. normalize_test_name (test_name e) = ''t'') ?E) \<or>
           (''t'', ?G) \<in> set (snd (aggregate_failures ?E)) \<and>
             [''b'', ''a'', ''c'', ''c''] = map error (filter (\<lambda>e. model_name e = Some ''t'') ?E)"
    by (simp only: agg msgs) simp
  note th = errors_ordered_by_count [OF hyp]
  from th have s: "sorted_wrt (\<lambda>a b. snd b \<le> snd a) (errors ?G)" by blast
  from th have "\<forall>xs m1 ys m2 zs c.
      errors ?G = xs @ (m1, c) # ys @ (m2, c) # zs \<longrightarrow>
      (\<exists>us vs. [''b'', ''a'', ''c'', ''c''] = us @ m1 # vs \<and> m2 \<notin> set us)"
    by blast
  then have "errors ?G = [(''c'', 2)] @ (''b'', 1) # [] @ (''a'', 1) # [] \<longrightarrow>
      (\<exists>us vs. [''b'', ''a'', ''c'', ''c''] = us @ ''b'' # vs \<and> ''a'' \<notin> set us)"
    by blast
  then have t: "\<exists>us vs. [''b'', ''a'', ''c'', ''c''] = us @ ''b'' # vs \<and> ''a'' \<notin> set us"
    by simp
  from agg have "(''t'', ?G) \<in> set (fst (aggregate_failures ?E))" by simp
  with s t show ?thesis by simp
qed

section \<open>The model names the extractor returns and the mapping by model\<close>

lemma map_of_finish_groups:
  "map_of (finish_groups m) k =
   map_option (\<lambda>info. info\<lparr>errors := most_common (errors info)\<rparr>) (map_of m k)"
  by (simp add: finish_groups_def map_of_map)

lemma keys_finish_groups: "map fst (finish_groups m) = map fst m"
  by (induction m) (auto simp: finish_groups_def)

text \<open>
  Claim C9, as the code has it. The extractor returns nothing, or the text between the
  prefix \<^verbatim>\<open>tests/models/\<close> and the next slash of the path, which may be empty. The mapping
  by model has a group for a name exactly when the name is not empty and some entry
  carries it, and the group counts every such entry; its keys are distinct; and the
  entries whose model name is absent or empty change nothing in it.
\<close>

theorem by_model_excludes_absent_or_empty:
  "extract_model_name s =
     (if startswith (split_first s ''::'') ''tests/models/''
      then Some (takeWhile (\<lambda>c. c \<noteq> CHR ''/'') (drop 13 (split_first s ''::'')))
      else None) \<and>
   map_option count (map_of (snd (aggregate_failures es)) k) =
     (if k \<noteq> [] \<and> (\<exists>e\<in>set es. model_name e = Some k)
      then Some (length (filter (\<lambda>e. model_name e = Some k) es)) else None) \<and>
   distinct (map fst (snd (aggregate_failures es))) \<and>
   snd (aggregate_failures es) =
     snd (aggregate_failures
       (filter (\<lambda>e. model_name e \<noteq> None \<and> model_name e \<noteq> Some []) es))"
proof (intro conjI)
  show "extract_model_name s =
     (if startswith (split_first s ''::'') ''tests/models/''
      then Some (takeWhile (\<lambda>c. c \<noteq> CHR ''/'') (drop 13 (split_first s ''::'')))
      else None)"
    by (rule extract_model_name_takeWhile)
  show "map_option count (map_of (snd (aggregate_failures es)) k) =
     (if k \<noteq> [] \<and> (\<exists>e\<in>set es. model_name e = Some k)
      then Some (length (filter (\<lambda>e. model_name e = Some k) es)) else None)"
    by (simp add: aggregate_failures_def Let_def map_of_finish_groups map_of_by_model)
  show "distinct (map fst (snd (aggregate_failures es)))"
    by (simp add: aggregate_failures_def Let_def keys_finish_groups by_model_groups
        groups_distinct)
  have "filter (\<lambda>e. truthy (model_name e)) (filter (\<lambda>e. truthy (model_name e)) es) =
        filter (\<lambda>e. truthy (model_name e)) es"
    by simp
  then have "snd (foldl aggregate_entry ([], []) es) =
             snd (foldl aggregate_entry ([], []) (filter (\<lambda>e. truthy (model_name e)) es))"
    by (simp only: by_model_groups)
  then show "snd (aggregate_failures es) =
     snd (aggregate_failures
       (filter (\<lambda>e. model_name e \<noteq> None \<and> model_name e \<noteq> Some []) es))"
    by (simp add: aggregate_failures_def Let_def truthy_iff)
qed

theorem by_model_excludes_absent_or_empty_witness:
  "extract_model_name ''tests/models/bart/test_x.py::test_y'' = Some ''bart'' \<and>
   map_option count (map_of (snd (aggregate_failures
     [\<lparr>job_name = ''job'', test_name = ''tests/models/bart/test_x.py::test_y'',
       error = ''boom'', model_name = Some ''bart''\<rparr>,
      \<lparr>job_name = ''job'', test_name = ''tests/models//test_x.py::test_y'',
       error = ''boom'', model_name = Some ''''\<rparr>,
      \<lparr>job_name = ''job'', test_name = ''tests/other/test_x.py::test_y'',
       error = ''boom'', model_name = None\<rparr>])) ''bart'') = Some 1"
proof -
  have fp: "split_first ''tests/models/bart/test_x.py::test_y'' ''::'' =
            ''tests/models/bart/test_x.py''"
    by code_simp
  let ?E = "[\<lparr>job_name = ''job'', test_name = ''tests/models/bart/test_x.py::test_y'',
           error = ''boom'', model_name = Some ''bart''\<rparr>,
          \<lparr>job_name = ''job'', test_name = ''tests/models//test_x.py::test_y'',
           error = ''boom'', model_name = Some ''''\<rparr>,
          \<lparr>job_name = ''job'', test_name = ''tests/other/test_x.py::test_y'',
           error = ''boom'', model_name = None\<rparr>]"
  note th = by_model_excludes_absent_or_empty
      [of "''tests/models/bart/test_x.py::test_y''" ?E "''bart''"]
  from th have "extract_model_name ''tests/models/bart/test_x.py::test_y'' =
     (if startswith (split_first ''tests/models/bart/test_x.py::test_y'' ''::'') ''tests/models/''
      then Some (takeWhile (\<lambda>c. c \<noteq> CHR ''/'')
                  (drop 13 (split_first ''tests/models/bart/test_x.py::test_y'' ''::'')))
      else None)"
    by (rule conjunct1)
  then have a: "extract_model_name ''tests/models/bart/test_x.py::test_y'' = Some ''bart''"
    by (simp add: fp startswith_def)
  from th have "map_option count (map_of (snd (aggregate_failures ?E)) ''bart'') =
     (if ''bart'' \<noteq> [] \<and> (\<exists>e\<in>set ?E. model_name e = Some ''bart'')
      then Some (length (filter (\<lambda>e. model_name e = Some ''bart'') ?E)) else None)"
    by blast
  then have b: "map_option count (map_of (snd (aggregate_failures ?E)) ''bart'') = Some 1"
    by simp
  from a b show ?thesis by (rule conjI)
qed

text \<open>
  For a path with an empty third segment the extractor returns the empty text, and the
  entry that carries it, although its model name is present, is left out of the mapping by
  model.
\<close>

theorem extractor_returns_empty_model_name:
  "extract_model_name ''tests/models//test_x.py::test_y'' = Some '''' \<and>
   model_name \<lparr>job_name = ''job'', test_name = ''tests/models//test_x.py::test_y'',
      error = ''boom'', model_name = Some ''''\<rparr> \<noteq> None \<and>
   snd (aggregate_failures
     [\<lparr>job_name = ''job'', test_name = ''tests/models//test_x.py::test_y'',
       error = ''boom'', model_name = Some ''''\<rparr>]) = []"
proof -
  have "extract_model_name ''tests/models//test_x.py::test_y'' = Some ''''"
    by code_simp
  then show ?thesis
    by (simp add: aggregate_failures_def aggregate_entry_def truthy_def finish_groups_def)
qed

end
